theory Spec2Isabelle
  imports Main "HOL-Library.Sublist" "HOL-Library.Char_ord" "HOL-Library.List_Lexorder"
begin

section \<open>Strings of the standard library\<close>

text \<open>
  A \<^verbatim>\<open>std::string\<close> is a list of bytes. \<^verbatim>\<open>::tolower\<close> in the "C" locale maps
  the 26 upper-case ASCII letters to lower case and leaves every other byte alone.
\<close>

definition tolower :: "char \<Rightarrow> char" where
  "tolower c =
     (case map_of (zip ''ABCDEFGHIJKLMNOPQRSTUVWXYZ'' ''abcdefghijklmnopqrstuvwxyz'') c of
        None \<Rightarrow> c
      | Some l \<Rightarrow> l)"

text \<open>\<^verbatim>\<open>toLower\<close>: a copy of the string, transformed byte by byte.\<close>

definition toLower :: "string \<Rightarrow> string" where
  "toLower str = map tolower str"

text \<open>
  \<^verbatim>\<open>s.find(word, pos)\<close>: the least index \<open>p \<ge> pos\<close> at which \<open>word\<close> occurs in
  \<open>s\<close>; \<^verbatim>\<open>npos\<close> is \<open>None\<close>. The empty word is found at every \<open>pos \<le> size\<close>.
\<close>

function find_from :: "string \<Rightarrow> string \<Rightarrow> nat \<Rightarrow> nat option" where
  "find_from s word pos =
     (if length s < pos + length word then None
      else if prefix word (drop pos s) then Some pos
      else find_from s word (pos + 1))"
  by pat_completeness auto
termination
proof (relation "measure (\<lambda>(s, word, pos). length s - pos)")
  fix s word :: string and pos :: nat
  assume a: "\<not> length s < pos + length word" and b: "\<not> prefix word (drop pos s)"
  from b have "word \<noteq> []" by auto
  with a have "pos < length s" by (cases word) auto
  then show "((s, word, pos + 1), (s, word, pos)) \<in> measure (\<lambda>(s, word, pos). length s - pos)"
    by simp
qed simp

declare find_from.simps [simp del]

text \<open>
  The masking loop \<^verbatim>\<open>for (i = 0; i < n; ++i) result[pos + i] = replacementChar\<close>:
  \<open>n\<close> writes, at \<open>pos\<close>, \<open>pos + 1\<close>, ... in this order. The source's
  \<^verbatim>\<open>operator[]\<close> is unchecked; every call below stays inside the string
  (\<open>find_from_Some\<close> for the literal set, \<open>censor_visits_bounds\<close> for the trie).
\<close>

fun mask_range :: "string \<Rightarrow> nat \<Rightarrow> nat \<Rightarrow> char \<Rightarrow> string" where
  "mask_range result pos 0 rc = result"
| "mask_range result pos (Suc n) rc = (mask_range result pos n rc)[pos + n := rc]"

section \<open>SimpleReplacementFilter\<close>

text \<open>
  The \<^verbatim>\<open>std::set<std::string>\<close> is kept as the list of its elements in iteration
  order (ascending, no duplicates); strings compare byte-wise, lexicographically.
\<close>

record SimpleReplacementFilter =
  simple_profanityList :: "string list"
  simple_replacementChar :: char

definition set_insert :: "string \<Rightarrow> string list \<Rightarrow> string list" where
  "set_insert w ws = (if w \<in> set ws then ws else insort w ws)"

definition defaultWords :: "string list" where
  "defaultWords = [''shit'', ''fuck'', ''damn'', ''ass'', ''bitch'', ''bastard'']"

definition SimpleReplacementFilter_init :: "char \<Rightarrow> SimpleReplacementFilter" where
  "SimpleReplacementFilter_init rc =
     \<lparr> simple_profanityList = foldl (\<lambda>ws w. set_insert w ws) [] defaultWords,
       simple_replacementChar = rc \<rparr>"

definition simple_containsProfanity :: "SimpleReplacementFilter \<Rightarrow> string \<Rightarrow> bool" where
  "simple_containsProfanity f text =
     (let lowerText = toLower text
      in list_ex (\<lambda>word. find_from lowerText word 0 \<noteq> None) (simple_profanityList f))"

text \<open>
  The inner \<^verbatim>\<open>while\<close> of \<^verbatim>\<open>censor\<close> for one word. It searches \<open>lowerText\<close>, writes
  into \<open>result\<close> and moves \<open>pos\<close> by the word's length; for the empty word \<open>pos\<close>
  does not move and the loop never ends, which is the value \<open>None\<close>.
\<close>

partial_function (option) simple_scan ::
  "string \<Rightarrow> string \<Rightarrow> char \<Rightarrow> nat \<Rightarrow> string \<Rightarrow> string option" where
  "simple_scan lowerText word rc pos result =
     (case find_from lowerText word pos of
        None \<Rightarrow> Some result
      | Some p \<Rightarrow>
          simple_scan lowerText word rc (p + length word) (mask_range result p (length word) rc))"

declare simple_scan.simps [code]

text \<open>The outer \<^verbatim>\<open>for (const auto& word : profanityList)\<close>.\<close>

fun simple_words :: "string \<Rightarrow> char \<Rightarrow> string list \<Rightarrow> string \<Rightarrow> string option" where
  "simple_words lowerText rc [] result = Some result"
| "simple_words lowerText rc (word # ws) result =
     (case simple_scan lowerText word rc 0 result of
        None \<Rightarrow> None
      | Some r \<Rightarrow> simple_words lowerText rc ws r)"

definition simple_censor :: "SimpleReplacementFilter \<Rightarrow> string \<Rightarrow> string option" where
  "simple_censor f text =
     simple_words (toLower text) (simple_replacementChar f) (simple_profanityList f) text"

definition simple_addProfanity ::
  "SimpleReplacementFilter \<Rightarrow> string \<Rightarrow> SimpleReplacementFilter" where
  "simple_addProfanity f word =
     f\<lparr> simple_profanityList := set_insert (toLower word) (simple_profanityList f) \<rparr>"

text \<open>
  \<^verbatim>\<open>loadFromFile\<close>: the file is what the file system holds under the name, \<open>None\<close>
  when it cannot be opened (a message is printed and nothing changes), otherwise its lines.
\<close>

definition simple_loadFromFile ::
  "SimpleReplacementFilter \<Rightarrow> string list option \<Rightarrow> SimpleReplacementFilter" where
  "simple_loadFromFile f file =
     (case file of
        None \<Rightarrow> f
      | Some lines \<Rightarrow>
          foldl (\<lambda>g word. if word \<noteq> [] then simple_addProfanity g word else g) f lines)"

text \<open>
  Two views of the inner \<^verbatim>\<open>while\<close>, used to state what it does. \<open>simple_scan_steps n\<close>
  is the loop cut after \<open>n\<close> runs of its body (\<open>None\<close> when a further run would be needed).
  \<open>scan_positions\<close> lists the values of \<^verbatim>\<open>pos\<close> at which the body runs, that is the
  occurrences the loop masks; it is kept total by listing nothing for the empty word.
\<close>

fun simple_scan_steps ::
  "nat \<Rightarrow> string \<Rightarrow> string \<Rightarrow> char \<Rightarrow> nat \<Rightarrow> string \<Rightarrow> string option" where
  "simple_scan_steps 0 lowerText word rc pos result =
     (case find_from lowerText word pos of None \<Rightarrow> Some result | Some p \<Rightarrow> None)"
| "simple_scan_steps (Suc n) lowerText word rc pos result =
     (case find_from lowerText word pos of
        None \<Rightarrow> Some result
      | Some p \<Rightarrow>
          simple_scan_steps n lowerText word rc (p + length word)
            (mask_range result p (length word) rc))"



section \<open>RegexFilter\<close>

text \<open>
  \<^verbatim>\<open>std::regex\<close> belongs to the standard library. A compiled pattern is taken as
  what \<^verbatim>\<open>std::regex_search(first, last, match, pattern)\<close> computes on a range of
  characters: \<open>None\<close> when nothing matches, otherwise \<^verbatim>\<open>match.position()\<close> and
  \<^verbatim>\<open>match.length()\<close>. The compiler of patterns is a parameter \<open>compile\<close>, \<open>None\<close>
  where the constructor throws \<^verbatim>\<open>std::regex_error\<close>.
\<close>

type_synonym regex = "string \<Rightarrow> (nat \<times> nat) option"

text \<open>
  The library on the patterns used below. A pattern without any of the special characters
  \<^verbatim>\<open>^ $ \ . * + ? ( ) [ ] { } |\<close> matches the leftmost occurrence of itself, here with
  \<^verbatim>\<open>std::regex::icase\<close>; the empty pattern is among them and matches the empty string
  at the start of every range. A pattern \<^verbatim>\<open>pre[cls]+suf\<close> matches \<open>pre\<close>, then one or
  more characters of the class (as many as possible, giving back only if \<open>suf\<close> does not
  follow), then \<open>suf\<close>. The string \<^verbatim>\<open>(\<close>, a lone opening parenthesis, is no regular
  expression: the constructor throws \<^verbatim>\<open>std::regex_error\<close>. \<open>compile_fragment\<close> is the
  library's compiler on these patterns; on every other pattern string it is left
  unspecified (\<open>undefined\<close>), so that nothing is stated about the library there.
\<close>

definition regex_literal :: "string \<Rightarrow> regex" where
  "regex_literal w s =
     (case find_from (toLower s) (toLower w) 0 of
        None \<Rightarrow> None
      | Some p \<Rightarrow> Some (p, length w))"

fun match_plus :: "string \<Rightarrow> string \<Rightarrow> string \<Rightarrow> nat option" where
  "match_plus cls suf [] = None"
| "match_plus cls suf (c # cs) =
     (if c \<in> set cls then
        (case match_plus cls suf cs of
           Some n \<Rightarrow> Some (n + 1)
         | None \<Rightarrow> if prefix suf cs then Some (1 + length suf) else None)
      else None)"

fun search_plus :: "string \<Rightarrow> string \<Rightarrow> string \<Rightarrow> string \<Rightarrow> nat \<Rightarrow> (nat \<times> nat) option" where
  "search_plus pre cls suf [] i = None"
| "search_plus pre cls suf (c # cs) i =
     (if prefix pre (c # cs) then
        (case match_plus cls suf (drop (length pre) (c # cs)) of
           Some n \<Rightarrow> Some (i, length pre + n)
         | None \<Rightarrow> search_plus pre cls suf cs (i + 1))
      else search_plus pre cls suf cs (i + 1))"

definition regex_class_plus :: "string \<Rightarrow> string \<Rightarrow> string \<Rightarrow> regex" where
  "regex_class_plus pre cls suf s = search_plus (toLower pre) (toLower cls) (toLower suf) (toLower s) 0"

definition regex_special :: "char list" where
  "regex_special = CHR 0x5C # ''^$.*+?()[]{}|''"

definition compile_fragment :: "string \<Rightarrow> regex option" where
  "compile_fragment pattern =
     (if pattern = ''f[aeiou*]+ck'' then Some (regex_class_plus ''f'' ''aeiou*'' ''ck'')
      else if pattern = ''sh[aeiou*]+t'' then Some (regex_class_plus ''sh'' ''aeiou*'' ''t'')
      else if pattern = ''('' then None
      else if list_all (\<lambda>c. c \<notin> set regex_special) pattern then Some (regex_literal pattern)
      else undefined)"

record RegexFilter =
  regex_profanityPatterns :: "regex list"
  regex_replacementChar :: char

definition addPattern :: "(string \<Rightarrow> regex option) \<Rightarrow> RegexFilter \<Rightarrow> string \<Rightarrow> RegexFilter" where
  "addPattern compile f pattern =
     (case compile pattern of
        None \<Rightarrow> f
      | Some r \<Rightarrow> f\<lparr> regex_profanityPatterns := regex_profanityPatterns f @ [r] \<rparr>)"

definition defaultPatterns :: "string list" where
  "defaultPatterns =
     [''shit'', ''fuck'', ''damn'', ''ass'', ''bitch'', ''bastard'',
      ''f[aeiou*]+ck'', ''sh[aeiou*]+t'']"

definition RegexFilter_init :: "(string \<Rightarrow> regex option) \<Rightarrow> char \<Rightarrow> RegexFilter" where
  "RegexFilter_init compile rc =
     foldl (addPattern compile)
       \<lparr> regex_profanityPatterns = [], regex_replacementChar = rc \<rparr> defaultPatterns"

definition regex_containsProfanity :: "RegexFilter \<Rightarrow> string \<Rightarrow> bool" where
  "regex_containsProfanity f text =
     (let lowerText = toLower text
      in list_ex (\<lambda>pattern. pattern lowerText \<noteq> None) (regex_profanityPatterns f))"

text \<open>
  The write loop of the pattern strategy carries the guard
  \<^verbatim>\<open>i < length && pos + i < result.length()\<close>.
\<close>

function mask_guarded :: "string \<Rightarrow> nat \<Rightarrow> nat \<Rightarrow> nat \<Rightarrow> char \<Rightarrow> string" where
  "mask_guarded result pos len i rc =
     (if i < len \<and> pos + i < length result
      then mask_guarded (result[pos + i := rc]) pos len (i + 1) rc
      else result)"
  by pat_completeness auto
termination
  by (relation "measure (\<lambda>(result, pos, len, i, rc). len - i)") auto

declare mask_guarded.simps [simp del]

text \<open>
  The \<^verbatim>\<open>while (std::regex_search(searchStart, lowerText.cend(), match, pattern))\<close> of
  one pattern: the range searched is \<open>lowerText\<close> from \<open>searchStart\<close>, the writes go to
  \<open>result\<close>, and \<^verbatim>\<open>match.suffix().first\<close> is the end of the match. A match of
  length zero at position zero leaves \<open>searchStart\<close> where it is: the loop does not end.
\<close>

partial_function (option) regex_scan ::
  "regex \<Rightarrow> string \<Rightarrow> char \<Rightarrow> nat \<Rightarrow> string \<Rightarrow> string option" where
  "regex_scan pattern lowerText rc searchStart result =
     (case pattern (drop searchStart lowerText) of
        None \<Rightarrow> Some result
      | Some (mpos, mlen) \<Rightarrow>
          regex_scan pattern lowerText rc (searchStart + mpos + mlen)
            (mask_guarded result (mpos + searchStart) mlen 0 rc))"

declare regex_scan.simps [code]

fun regex_patterns :: "string \<Rightarrow> char \<Rightarrow> regex list \<Rightarrow> string \<Rightarrow> string option" where
  "regex_patterns lowerText rc [] result = Some result"
| "regex_patterns lowerText rc (pattern # ps) result =
     (case regex_scan pattern lowerText rc 0 result of
        None \<Rightarrow> None
      | Some r \<Rightarrow> regex_patterns lowerText rc ps r)"

definition regex_censor :: "RegexFilter \<Rightarrow> string \<Rightarrow> string option" where
  "regex_censor f text =
     regex_patterns (toLower text) (regex_replacementChar f) (regex_profanityPatterns f) text"





definition regex_addProfanity ::
  "(string \<Rightarrow> regex option) \<Rightarrow> RegexFilter \<Rightarrow> string \<Rightarrow> RegexFilter" where
  "regex_addProfanity compile f word = addPattern compile f word"

definition regex_loadFromFile ::
  "(string \<Rightarrow> regex option) \<Rightarrow> RegexFilter \<Rightarrow> string list option \<Rightarrow> RegexFilter" where
  "regex_loadFromFile compile f file =
     (case file of
        None \<Rightarrow> f
      | Some lines \<Rightarrow>
          foldl (\<lambda>g word. if word \<noteq> [] then addPattern compile g word else g) f lines)"

section \<open>TrieNode and TrieFilter\<close>

text \<open>
  A node owns the map of its children and the flag. Nodes are only ever created fresh by
  \<^verbatim>\<open>std::make_shared\<close>, so the shared pointers form a tree.
\<close>

datatype TrieNode = TrieNode (children: "char \<Rightarrow> TrieNode option") (isEndOfWord: bool)

record TrieFilter =
  trie_root :: TrieNode
  trie_replacementChar :: char

text \<open>
  \<^verbatim>\<open>addToTrie\<close> walks down from the root, creating the missing child at each
  character, and sets the flag of the node it ends at.
\<close>

fun addToTrie :: "TrieNode \<Rightarrow> string \<Rightarrow> TrieNode" where
  "addToTrie node [] = TrieNode (children node) True"
| "addToTrie node (c # cs) =
     (let child = (case children node c of None \<Rightarrow> TrieNode Map.empty False | Some n \<Rightarrow> n)
      in TrieNode ((children node)(c \<mapsto> addToTrie child cs)) (isEndOfWord node))"

definition TrieFilter_init :: "char \<Rightarrow> TrieFilter" where
  "TrieFilter_init rc =
     \<lparr> trie_root = foldl addToTrie (TrieNode Map.empty False) defaultWords,
       trie_replacementChar = rc \<rparr>"

text \<open>The words of a trie: the paths from the node to a node whose flag is set.\<close>

fun trie_member :: "TrieNode \<Rightarrow> string \<Rightarrow> bool" where
  "trie_member node [] = isEndOfWord node"
| "trie_member node (c # cs) =
     (case children node c of None \<Rightarrow> False | Some n \<Rightarrow> trie_member n cs)"

text \<open>
  \<open>longest_word_at node s j L\<close>: the \<open>L\<close> characters of \<open>s\<close> from index \<open>j\<close> are a
  non-empty word of the trie below \<open>node\<close> and no longer stretch from \<open>j\<close> is one;
  \<open>no_word_at\<close>: no non-empty stretch from \<open>j\<close> is a word.
\<close>

definition longest_word_at :: "TrieNode \<Rightarrow> string \<Rightarrow> nat \<Rightarrow> nat \<Rightarrow> bool" where
  "longest_word_at node s j L \<longleftrightarrow>
     0 < L \<and> j + L \<le> length s \<and> trie_member node (take L (drop j s)) \<and>
     (\<forall>l\<in>{L<..length s - j}. \<not> trie_member node (take l (drop j s)))"

definition no_word_at :: "TrieNode \<Rightarrow> string \<Rightarrow> nat \<Rightarrow> bool" where
  "no_word_at node s j \<longleftrightarrow> (\<forall>l\<in>{0<..length s - j}. \<not> trie_member node (take l (drop j s)))"

text \<open>The inner \<^verbatim>\<open>for (j = i; ...)\<close> of \<^verbatim>\<open>containsProfanity\<close>, from index \<open>j\<close>.\<close>

function contains_inner :: "TrieNode \<Rightarrow> string \<Rightarrow> nat \<Rightarrow> bool" where
  "contains_inner node lowerText j =
     (if j < length lowerText then
        (case children node (lowerText ! j) of
           None \<Rightarrow> False
         | Some n \<Rightarrow> if isEndOfWord n then True else contains_inner n lowerText (j + 1))
      else False)"
  by pat_completeness auto
termination
  by (relation "measure (\<lambda>(node, lowerText, j). length lowerText - j)") auto

declare contains_inner.simps [simp del]

function contains_outer :: "TrieNode \<Rightarrow> string \<Rightarrow> nat \<Rightarrow> bool" where
  "contains_outer root lowerText i =
     (if i < length lowerText then
        (if contains_inner root lowerText i then True else contains_outer root lowerText (i + 1))
      else False)"
  by pat_completeness auto
termination
  by (relation "measure (\<lambda>(root, lowerText, i). length lowerText - i)") auto

declare contains_outer.simps [simp del]

definition trie_containsProfanity :: "TrieFilter \<Rightarrow> string \<Rightarrow> bool" where
  "trie_containsProfanity f text = contains_outer (trie_root f) (toLower text) 0"

text \<open>
  The inner loop of \<^verbatim>\<open>censor\<close> carries \<^verbatim>\<open>wordEnd\<close> (\<^verbatim>\<open>npos\<close> is \<open>None\<close>) and
  \<^verbatim>\<open>wordLength\<close>, overwritten at every terminal node on the way down.
\<close>

function censor_inner ::
  "TrieNode \<Rightarrow> string \<Rightarrow> nat \<Rightarrow> nat \<Rightarrow> nat option \<times> nat \<Rightarrow> nat option \<times> nat" where
  "censor_inner node lowerText i j (wordEnd, wordLength) =
     (if j < length lowerText then
        (case children node (lowerText ! j) of
           None \<Rightarrow> (wordEnd, wordLength)
         | Some n \<Rightarrow>
             censor_inner n lowerText i (j + 1)
               (if isEndOfWord n then (Some j, j - i + 1) else (wordEnd, wordLength)))
      else (wordEnd, wordLength))"
  by pat_completeness auto
termination
  by (relation "measure (\<lambda>(node, lowerText, i, j, w). length lowerText - j)") auto

declare censor_inner.simps [simp del]

text \<open>
  The outer loop of \<^verbatim>\<open>censor\<close>. After a match the source sets \<^verbatim>\<open>i = wordEnd\<close> and
  the loop header adds one; without a match only the header's \<^verbatim>\<open>++i\<close> runs.
  \<open>censor_visits\<close> is the same traversal and records, for every run of the loop body,
  the start index \<open>i\<close> with the \<^verbatim>\<open>wordEnd\<close> and \<^verbatim>\<open>wordLength\<close> found there.
\<close>

function censor_outer :: "TrieNode \<Rightarrow> char \<Rightarrow> string \<Rightarrow> nat \<Rightarrow> string \<Rightarrow> string"
  and censor_visits :: "TrieNode \<Rightarrow> string \<Rightarrow> nat \<Rightarrow> (nat \<times> nat option \<times> nat) list" where
  "censor_outer root rc lowerText i result =
     (if i < length lowerText then
        (case censor_inner root lowerText i i (None, 0) of
           (None, wordLength) \<Rightarrow> censor_outer root rc lowerText (i + 1) result
         | (Some wordEnd, wordLength) \<Rightarrow>
             censor_outer root rc lowerText (wordEnd + 1) (mask_range result i wordLength rc))
      else result)"
| "censor_visits root lowerText i =
     (if i < length lowerText then
        (case censor_inner root lowerText i i (None, 0) of
           (None, wordLength) \<Rightarrow> (i, None, wordLength) # censor_visits root lowerText (i + 1)
         | (Some wordEnd, wordLength) \<Rightarrow>
             (i, Some wordEnd, wordLength) # censor_visits root lowerText (wordEnd + 1))
      else [])"
  by pat_completeness auto
termination
proof -
  have key: "i \<le> j \<Longrightarrow> (\<forall>e. fst w = Some e \<longrightarrow> i \<le> e) \<Longrightarrow>
      censor_inner node lowerText i j w = (Some e', l') \<Longrightarrow> i \<le> e'"
    for node lowerText i j w e' l'
  proof (induction node lowerText i j w rule: censor_inner.induct)
    case (1 node lowerText i j wordEnd wordLength)
    show ?case
    proof (cases "j < length lowerText")
      case False
      with "1.prems" show ?thesis by (simp add: censor_inner.simps)
    next
      case True
      show ?thesis
      proof (cases "children node (lowerText ! j)")
        case None
        with True "1.prems" show ?thesis by (simp add: censor_inner.simps)
      next
        case (Some n)
        have "censor_inner n lowerText i (j + 1)
               (if isEndOfWord n then (Some j, j - i + 1) else (wordEnd, wordLength)) = (Some e', l')"
          using "1.prems"(3) True Some by (simp add: censor_inner.simps)
        moreover have "\<forall>e. fst (if isEndOfWord n then (Some j, j - i + 1) else (wordEnd, wordLength))
               = Some e \<longrightarrow> i \<le> e"
          using "1.prems"(1,2) by auto
        ultimately show ?thesis
          using "1.IH" [OF True Some] "1.prems"(1) by simp
      qed
    qed
  qed
  have start: "(Some e, l) = censor_inner root lowerText i i (None, 0) \<Longrightarrow> i \<le> e"
    for root lowerText i e l
    using key [of i i "(None, 0)" root lowerText e l] by simp
  show ?thesis
    by (relation "measure (\<lambda>x. case x of
            Inl (root, rc, lowerText, i, result) \<Rightarrow> length lowerText - i
          | Inr (root, lowerText, i) \<Rightarrow> length lowerText - i)")
       (auto dest!: start)
qed

declare censor_visits.simps [simp del]
declare censor_outer.simps [simp del]

definition trie_censor :: "TrieFilter \<Rightarrow> string \<Rightarrow> string" where
  "trie_censor f text =
     censor_outer (trie_root f) (trie_replacementChar f) (toLower text) 0 text"

definition trie_addProfanity :: "TrieFilter \<Rightarrow> string \<Rightarrow> TrieFilter" where
  "trie_addProfanity f word = f\<lparr> trie_root := addToTrie (trie_root f) (toLower word) \<rparr>"

definition trie_loadFromFile :: "TrieFilter \<Rightarrow> string list option \<Rightarrow> TrieFilter" where
  "trie_loadFromFile f file =
     (case file of
        None \<Rightarrow> f
      | Some lines \<Rightarrow>
          foldl (\<lambda>g word. if word \<noteq> [] then g\<lparr> trie_root := addToTrie (trie_root g) (toLower word) \<rparr>
                           else g) f lines)"

section \<open>HybridFilter\<close>

record HybridFilter =
  simpleFilter :: SimpleReplacementFilter
  regexFilter :: RegexFilter
  trieFilter :: TrieFilter
  useSimpleFilter :: bool
  useRegexFilter :: bool
  useTrieFilter :: bool

definition HybridFilter_init :: "(string \<Rightarrow> regex option) \<Rightarrow> char \<Rightarrow> HybridFilter" where
  "HybridFilter_init compile rc =
     \<lparr> simpleFilter = SimpleReplacementFilter_init rc,
       regexFilter = RegexFilter_init compile rc,
       trieFilter = TrieFilter_init rc,
       useSimpleFilter = True, useRegexFilter = True, useTrieFilter = True \<rparr>"

definition hybrid_containsProfanity :: "HybridFilter \<Rightarrow> string \<Rightarrow> bool" where
  "hybrid_containsProfanity h text =
     (if useSimpleFilter h \<and> simple_containsProfanity (simpleFilter h) text then True
      else if useRegexFilter h \<and> regex_containsProfanity (regexFilter h) text then True
      else if useTrieFilter h \<and> trie_containsProfanity (trieFilter h) text then True
      else False)"

text \<open>The pipeline of \<^verbatim>\<open>censor\<close>: a stage that does not return stops the whole call.\<close>

definition hybrid_censor :: "HybridFilter \<Rightarrow> string \<Rightarrow> string option" where
  "hybrid_censor h text =
     (case (if useSimpleFilter h then simple_censor (simpleFilter h) text else Some text) of
        None \<Rightarrow> None
      | Some r1 \<Rightarrow>
          (case (if useRegexFilter h then regex_censor (regexFilter h) r1 else Some r1) of
             None \<Rightarrow> None
           | Some r2 \<Rightarrow>
               Some (if useTrieFilter h then trie_censor (trieFilter h) r2 else r2)))"

definition hybrid_addProfanity ::
  "(string \<Rightarrow> regex option) \<Rightarrow> HybridFilter \<Rightarrow> string \<Rightarrow> HybridFilter" where
  "hybrid_addProfanity compile h word =
     h\<lparr> simpleFilter := simple_addProfanity (simpleFilter h) word,
        regexFilter := regex_addProfanity compile (regexFilter h) word,
        trieFilter := trie_addProfanity (trieFilter h) word \<rparr>"

text \<open>Each sub-engine opens and reads the file of that name; all three see the same lines.\<close>

definition hybrid_loadFromFile ::
  "(string \<Rightarrow> regex option) \<Rightarrow> HybridFilter \<Rightarrow> string list option \<Rightarrow> HybridFilter" where
  "hybrid_loadFromFile compile h file =
     h\<lparr> simpleFilter := simple_loadFromFile (simpleFilter h) file,
        regexFilter := regex_loadFromFile compile (regexFilter h) file,
        trieFilter := trie_loadFromFile (trieFilter h) file \<rparr>"

definition configureFilters :: "HybridFilter \<Rightarrow> bool \<Rightarrow> bool \<Rightarrow> bool \<Rightarrow> HybridFilter" where
  "configureFilters h useSimple useRegex useTrie =
     h\<lparr> useSimpleFilter := useSimple, useRegexFilter := useRegex, useTrieFilter := useTrie \<rparr>"

section \<open>Lengths and termination of the loops\<close>

lemma length_mask [simp]: "length (mask_range result pos n rc) = length result"
  by (induction n) simp_all

lemma length_mask_guarded [simp]: "length (mask_guarded result pos len i rc) = length result"
proof (induction result pos len i rc rule: mask_guarded.induct)
  case (1 result pos len i rc)
  then show ?case by (subst mask_guarded.simps) simp
qed

lemma find_from_Some:
  "find_from s word pos = Some p \<Longrightarrow> pos \<le> p \<and> p + length word \<le> length s \<and> prefix word (drop p s)"
proof (induction s word pos rule: find_from.induct)
  case (1 s word pos)
  then show ?case
    by (subst (asm) (2) find_from.simps) (auto split: if_splits)
qed

lemma simple_scan_length:
  assumes "simple_scan lowerText word rc pos result = Some y"
  shows "length y = length result"
  by (rule simple_scan.raw_induct
        [where P = "\<lambda>lowerText word rc pos result y. length y = length result", rotated 1, OF assms])
     (auto split: option.splits)

lemma find_from_empty: "pos \<le> length s \<Longrightarrow> find_from s [] pos = Some pos"
  by (subst find_from.simps) simp

lemma simple_scan_empty_diverges:
  assumes "pos \<le> length lowerText"
  shows "simple_scan lowerText [] rc pos result = None"
proof (cases "simple_scan lowerText [] rc pos result")
  case (Some y)
  have "\<not> ([] = ([]::string) \<and> pos \<le> length lowerText)"
    by (rule simple_scan.raw_induct
        [where P = "\<lambda>lowerText word rc pos result y. \<not> (word = [] \<and> pos \<le> length lowerText)",
         rotated 1, OF Some])
       (auto simp: find_from_empty)
  with assms show ?thesis by simp
qed simp

lemma simple_scan_total:
  assumes "word \<noteq> []"
  shows "\<exists>y. simple_scan lowerText word rc pos result = Some y"
proof (induction "length lowerText - pos" arbitrary: pos result rule: less_induct)
  case less
  show ?case
  proof (cases "find_from lowerText word pos")
    case None
    then show ?thesis by (subst simple_scan.simps) simp
  next
    case (Some p)
    from find_from_Some [OF Some] assms
    have "length lowerText - (p + length word) < length lowerText - pos"
      by (cases word) auto
    from less [OF this] Some show ?thesis by (subst simple_scan.simps) simp
  qed
qed

lemma simple_words_length:
  "simple_words lowerText rc ws result = Some y \<Longrightarrow> length y = length result"
proof (induction ws arbitrary: result)
  case Nil
  then show ?case by simp
next
  case (Cons w ws)
  then show ?case by (auto split: option.splits dest: simple_scan_length)
qed

lemma simple_words_total:
  "\<forall>w\<in>set ws. w \<noteq> [] \<Longrightarrow> \<exists>y. simple_words lowerText rc ws result = Some y"
proof (induction ws arbitrary: result)
  case Nil
  then show ?case by simp
next
  case (Cons w ws)
  from Cons.prems have "w \<noteq> []" by simp
  then obtain r where r: "simple_scan lowerText w rc 0 result = Some r"
    using simple_scan_total by blast
  from Cons.IH [of r] Cons.prems obtain y where "simple_words lowerText rc ws r = Some y"
    by auto
  with r show ?case by simp
qed

lemma regex_scan_length:
  assumes "regex_scan pattern lowerText rc searchStart result = Some y"
  shows "length y = length result"
  by (rule regex_scan.raw_induct
        [where P = "\<lambda>pattern lowerText rc searchStart result y. length y = length result",
         rotated 1, OF assms])
     (auto split: option.splits)

lemma regex_patterns_length:
  "regex_patterns lowerText rc ps result = Some y \<Longrightarrow> length y = length result"
proof (induction ps arbitrary: result)
  case Nil
  then show ?case by simp
next
  case (Cons p ps)
  then show ?case by (auto split: option.splits dest: regex_scan_length)
qed

lemma regex_scan_total:
  assumes ok: "\<And>s mp ml. pattern s = Some (mp, ml) \<Longrightarrow> 0 < ml \<and> mp + ml \<le> length s"
  shows "\<exists>y. regex_scan pattern lowerText rc searchStart result = Some y"
proof (induction "length lowerText - searchStart" arbitrary: searchStart result rule: less_induct)
  case less
  show ?case
  proof (cases "pattern (drop searchStart lowerText)")
    case None
    then show ?thesis by (subst regex_scan.simps) simp
  next
    case (Some m)
    obtain mp ml where m: "m = (mp, ml)" by (cases m)
    from ok [of "drop searchStart lowerText" mp ml] Some m
    have "length lowerText - (searchStart + mp + ml) < length lowerText - searchStart"
      by auto
    from less [OF this] Some m show ?thesis by (subst regex_scan.simps) simp
  qed
qed

lemma regex_patterns_total:
  assumes "\<forall>p\<in>set ps. \<forall>s mp ml. p s = Some (mp, ml) \<longrightarrow> 0 < ml \<and> mp + ml \<le> length s"
  shows "\<exists>y. regex_patterns lowerText rc ps result = Some y"
  using assms
proof (induction ps arbitrary: result)
  case Nil
  then show ?case by simp
next
  case (Cons p ps)
  from Cons.prems have "\<And>s mp ml. p s = Some (mp, ml) \<Longrightarrow> 0 < ml \<and> mp + ml \<le> length s"
    by simp
  then obtain r where r: "regex_scan p lowerText rc 0 result = Some r"
    using regex_scan_total [of p] by blast
  from Cons.IH [of r] Cons.prems obtain y where "regex_patterns lowerText rc ps r = Some y"
    by auto
  with r show ?case by simp
qed

section \<open>The inner walk of the trie finds the longest word\<close>

lemma take_Suc_drop: "j < length s \<Longrightarrow> take (Suc l) (drop j s) = s ! j # take l (drop (Suc j) s)"
  by (simp add: Cons_nth_drop_Suc [symmetric])

lemma no_word_at_step:
  assumes "no_word_at node s j" and "j < length s" and "children node (s ! j) = Some n"
  shows "\<not> isEndOfWord n" and "no_word_at n s (Suc j)"
proof -
  from assms(1,2) have "\<not> trie_member node (take (Suc 0) (drop j s))"
    unfolding no_word_at_def by (auto simp: Ball_def)
  with assms(2,3) show "\<not> isEndOfWord n" by (simp add: take_Suc_drop)
  show "no_word_at n s (Suc j)"
    unfolding no_word_at_def
  proof
    fix l assume l: "l \<in> {0<..length s - Suc j}"
    then have "Suc l \<in> {0<..length s - j}" by auto
    with assms(1) have "\<not> trie_member node (take (Suc l) (drop j s))"
      unfolding no_word_at_def by blast
    with assms(2,3) show "\<not> trie_member n (take l (drop (Suc j) s))"
      by (simp add: take_Suc_drop)
  qed
qed

lemma censor_inner_none:
  "no_word_at node s j \<Longrightarrow> censor_inner node s i j w = w"
proof (induction node s i j w rule: censor_inner.induct)
  case (1 node s i j wordEnd wordLength)
  show ?case
  proof (cases "j < length s")
    case False
    then show ?thesis by (simp add: censor_inner.simps)
  next
    case True
    show ?thesis
    proof (cases "children node (s ! j)")
      case None
      with True show ?thesis by (simp add: censor_inner.simps)
    next
      case (Some n)
      from no_word_at_step [OF "1.prems" True Some]
      have ne: "\<not> isEndOfWord n" and nw: "no_word_at n s (Suc j)" by simp_all
      from "1.IH" [OF True Some] nw ne
      have "censor_inner n s i (j + 1) (wordEnd, wordLength) = (wordEnd, wordLength)" by simp
      with True Some ne show ?thesis by (subst censor_inner.simps) simp
    qed
  qed
qed

lemma longest_word_at_step:
  assumes "longest_word_at node s j L"
  shows "j < length s"
    and "\<exists>n. children node (s ! j) = Some n \<and>
          (if L = 1 then isEndOfWord n \<and> no_word_at n s (Suc j)
           else longest_word_at n s (Suc j) (L - 1))"
proof -
  from assms have L: "0 < L" "j + L \<le> length s"
    and mem: "trie_member node (take L (drop j s))"
    and mx: "\<forall>l\<in>{L<..length s - j}. \<not> trie_member node (take l (drop j s))"
    unfolding longest_word_at_def by auto
  from L show lt: "j < length s" by simp
  obtain L' where L': "L = Suc L'" using L(1) by (cases L) auto
  from mem lt obtain n where n: "children node (s ! j) = Some n"
    and memn: "trie_member n (take L' (drop (Suc j) s))"
    by (auto simp: L' take_Suc_drop split: option.splits)
  have rest: "\<not> trie_member n (take l (drop (Suc j) s))" if "L' < l" "l \<le> length s - Suc j" for l
  proof -
    from that L' have "Suc l \<in> {L<..length s - j}" by auto
    with mx have "\<not> trie_member node (take (Suc l) (drop j s))" by blast
    with lt n show ?thesis by (simp add: take_Suc_drop)
  qed
  show "\<exists>n. children node (s ! j) = Some n \<and>
          (if L = 1 then isEndOfWord n \<and> no_word_at n s (Suc j)
           else longest_word_at n s (Suc j) (L - 1))"
  proof (cases "L = 1")
    case True
    with L' have "L' = 0" by simp
    with memn rest True n show ?thesis
      by (auto simp: no_word_at_def)
  next
    case False
    with L' have "0 < L'" by simp
    with memn rest False n L L' show ?thesis
      by (auto simp: longest_word_at_def)
  qed
qed

lemma censor_inner_longest:
  "longest_word_at node s j L \<Longrightarrow> i \<le> j \<Longrightarrow>
   censor_inner node s i j w = (Some (j + L - 1), j + L - i)"
proof (induction node s i j w arbitrary: L rule: censor_inner.induct)
  case (1 node s i j wordEnd wordLength)
  from longest_word_at_step [OF "1.prems"(1)] obtain n where
    lt: "j < length s" and n: "children node (s ! j) = Some n"
    and step: "if L = 1 then isEndOfWord n \<and> no_word_at n s (Suc j)
           else longest_word_at n s (Suc j) (L - 1)" by blast
  show ?case
  proof (cases "L = 1")
    case True
    with step have e: "isEndOfWord n" and nw: "no_word_at n s (Suc j)" by simp_all
    from censor_inner_none [OF nw] e lt n True "1.prems"(2) show ?thesis
      by (subst censor_inner.simps) (simp add: Suc_diff_le)
  next
    case False
    with step have lw: "longest_word_at n s (Suc j) (L - 1)" by simp
    from "1.prems"(1) have "0 < L" by (simp add: longest_word_at_def)
    with False have L2: "2 \<le> L" by simp
    from lw have lw': "longest_word_at n s (j + 1) (L - 1)" by simp
    from "1.IH" [OF lt n lw'] "1.prems"(2)
    have "censor_inner n s i (j + 1)
            (if isEndOfWord n then (Some j, j - i + 1) else (wordEnd, wordLength))
          = (Some (Suc j + (L - 1) - 1), Suc j + (L - 1) - i)" by simp
    with lt n L2 show ?thesis
      by (subst censor_inner.simps) simp
  qed
qed

lemma word_at_cases:
  "no_word_at node s j \<or> (\<exists>L. longest_word_at node s j L)"
proof (cases "no_word_at node s j")
  case False
  define Q where "Q l \<longleftrightarrow> 0 < l \<and> l \<le> length s - j \<and> trie_member node (take l (drop j s))" for l
  from False obtain k where "Q k" by (auto simp: no_word_at_def Q_def)
  moreover have "\<forall>y. Q y \<longrightarrow> y \<le> length s - j" by (simp add: Q_def)
  ultimately obtain L where L: "Q L" and mx: "\<forall>y. Q y \<longrightarrow> y \<le> L"
    using Nat.ex_has_greatest_nat [of Q k "length s - j"] by blast
  have "longest_word_at node s j L"
    unfolding longest_word_at_def
  proof (intro conjI ballI)
    from L show "0 < L" by (simp add: Q_def)
    from L show "j + L \<le> length s" by (auto simp: Q_def)
    from L show "trie_member node (take L (drop j s))" by (simp add: Q_def)
    fix l assume l: "l \<in> {L<..length s - j}"
    show "\<not> trie_member node (take l (drop j s))"
    proof
      assume "trie_member node (take l (drop j s))"
      with l have "Q l" by (auto simp: Q_def)
      with mx l show False by auto
    qed
  qed
  then show ?thesis by blast
qed simp

section \<open>The outer loop of the trie, lengths, and when the loops end\<close>

lemma censor_outer_end: "\<not> i < length s \<Longrightarrow> censor_outer root rc s i result = result"
  by (subst censor_outer.simps) simp

lemma censor_outer_no_word:
  "i < length s \<Longrightarrow> no_word_at root s i \<Longrightarrow>
   censor_outer root rc s i result = censor_outer root rc s (i + 1) result"
  by (subst censor_outer.simps) (simp add: censor_inner_none)

lemma censor_outer_word:
  assumes "longest_word_at root s i L"
  shows "censor_outer root rc s i result = censor_outer root rc s (i + L) (mask_range result i L rc)"
proof -
  from assms have "0 < L" "i + L \<le> length s" by (auto simp: longest_word_at_def)
  then show ?thesis
    by (subst censor_outer.simps) (simp add: censor_inner_longest [OF assms])
qed

lemma censor_visits_end: "\<not> i < length s \<Longrightarrow> censor_visits root s i = []"
  by (subst censor_visits.simps) simp

lemma censor_visits_no_word:
  "i < length s \<Longrightarrow> no_word_at root s i \<Longrightarrow>
   censor_visits root s i = (i, None, 0) # censor_visits root s (i + 1)"
  by (subst censor_visits.simps) (simp add: censor_inner_none)

lemma censor_visits_word:
  assumes "longest_word_at root s i L"
  shows "censor_visits root s i = (i, Some (i + L - 1), L) # censor_visits root s (i + L)"
proof -
  from assms have "0 < L" "i + L \<le> length s" by (auto simp: longest_word_at_def)
  then show ?thesis
    by (subst censor_visits.simps) (simp add: censor_inner_longest [OF assms])
qed

lemma censor_outer_length:
  "length (censor_outer root rc s i result) = length result"
proof (induction "length s - i" arbitrary: i result rule: less_induct)
  case less
  show ?case
  proof (cases "i < length s")
    case False
    then show ?thesis by (simp add: censor_outer_end)
  next
    case True
    from word_at_cases [of root s i] show ?thesis
    proof
      assume nw: "no_word_at root s i"
      from True have "length s - (i + 1) < length s - i" by simp
      from less [OF this] show ?thesis by (simp add: censor_outer_no_word [OF True nw])
    next
      assume "\<exists>L. longest_word_at root s i L"
      then obtain L where L: "longest_word_at root s i L" ..
      then have "0 < L" by (simp add: longest_word_at_def)
      with True have "length s - (i + L) < length s - i" by simp
      from less [OF this] show ?thesis by (simp add: censor_outer_word [OF L])
    qed
  qed
qed

lemma trie_censor_length: "length (trie_censor f text) = length text"
  by (simp add: trie_censor_def censor_outer_length)

lemma simple_censor_length: "simple_censor f text = Some r \<Longrightarrow> length r = length text"
  unfolding simple_censor_def by (rule simple_words_length [THEN trans]) simp_all

lemma regex_censor_length: "regex_censor f text = Some r \<Longrightarrow> length r = length text"
  unfolding regex_censor_def by (rule regex_patterns_length [THEN trans]) simp_all

lemma hybrid_censor_length:
  assumes "hybrid_censor h text = Some r"
  shows "length r = length text"
proof -
  from assms obtain r1 r2 where
    r1: "(if useSimpleFilter h then simple_censor (simpleFilter h) text else Some text) = Some r1"
    and r2: "(if useRegexFilter h then regex_censor (regexFilter h) r1 else Some r1) = Some r2"
    and r: "r = (if useTrieFilter h then trie_censor (trieFilter h) r2 else r2)"
    by (auto simp: hybrid_censor_def split: option.splits)
  from r1 have "length r1 = length text"
    by (auto split: if_splits dest: simple_censor_length)
  moreover from r2 have "length r2 = length r1"
    by (auto split: if_splits dest: regex_censor_length)
  moreover from r have "length r = length r2"
    by (simp add: trie_censor_length)
  ultimately show ?thesis by simp
qed

lemma simple_censor_total:
  "\<forall>w\<in>set (simple_profanityList f). w \<noteq> [] \<Longrightarrow> \<exists>r. simple_censor f text = Some r"
  unfolding simple_censor_def by (rule simple_words_total)

lemma regex_censor_total:
  "\<forall>p\<in>set (regex_profanityPatterns f). \<forall>s mp ml. p s = Some (mp, ml) \<longrightarrow> 0 < ml \<and> mp + ml \<le> length s
   \<Longrightarrow> \<exists>r. regex_censor f text = Some r"
  unfolding regex_censor_def by (rule regex_patterns_total)

lemma hybrid_censor_total:
  assumes "useSimpleFilter h \<longrightarrow> (\<forall>w\<in>set (simple_profanityList (simpleFilter h)). w \<noteq> [])"
    and "useRegexFilter h \<longrightarrow> (\<forall>p\<in>set (regex_profanityPatterns (regexFilter h)).
           \<forall>s mp ml. p s = Some (mp, ml) \<longrightarrow> 0 < ml \<and> mp + ml \<le> length s)"
  shows "\<exists>r. hybrid_censor h text = Some r"
proof -
  have "\<exists>r1. (if useSimpleFilter h then simple_censor (simpleFilter h) text else Some text) = Some r1"
    using assms(1) simple_censor_total [of "simpleFilter h" "text"] by (cases "useSimpleFilter h") auto
  then obtain r1 where
    r1: "(if useSimpleFilter h then simple_censor (simpleFilter h) text else Some text) = Some r1" ..
  have "\<exists>r2. (if useRegexFilter h then regex_censor (regexFilter h) r1 else Some r1) = Some r2"
    using assms(2) regex_censor_total [of "regexFilter h" r1] by (cases "useRegexFilter h") auto
  then obtain r2 where
    r2: "(if useRegexFilter h then regex_censor (regexFilter h) r1 else Some r1) = Some r2" ..
  from r1 r2 show ?thesis by (simp add: hybrid_censor_def)
qed

lemma length_toLower [simp]: "length (toLower s) = length s"
  by (simp add: toLower_def)

lemma regex_literal_proper:
  assumes "w \<noteq> []" and "regex_literal w s = Some (mp, ml)"
  shows "0 < ml \<and> mp + ml \<le> length s"
proof -
  from assms(2) obtain p where p: "find_from (toLower s) (toLower w) 0 = Some p"
    and eq: "mp = p" "ml = length w"
    by (auto simp: regex_literal_def split: option.splits)
  from find_from_Some [OF p] assms(1) eq show ?thesis by simp
qed

lemma match_plus_bound: "match_plus cls suf cs = Some n \<Longrightarrow> 0 < n \<and> n \<le> length cs"
proof (induction cs arbitrary: n)
  case Nil
  then show ?case by simp
next
  case (Cons c cs)
  show ?case
  proof (cases "match_plus cls suf cs")
    case None
    with Cons.prems have "prefix suf cs" and "n = 1 + length suf"
      by (auto split: if_splits)
    then show ?thesis by (auto dest: prefix_length_le)
  next
    case (Some m)
    with Cons.prems have "n = m + 1" by (auto split: if_splits)
    with Cons.IH [OF Some] show ?thesis by simp
  qed
qed

lemma search_plus_proper:
  "search_plus pre cls suf s i = Some (mp, ml) \<Longrightarrow> 0 < ml \<and> mp + ml \<le> i + length s"
proof (induction s arbitrary: i)
  case Nil
  then show ?case by simp
next
  case (Cons c cs)
  show ?case
  proof (cases "prefix pre (c # cs) \<and> match_plus cls suf (drop (length pre) (c # cs)) \<noteq> None")
    case True
    then obtain n where n: "match_plus cls suf (drop (length pre) (c # cs)) = Some n"
      and pre: "prefix pre (c # cs)" by auto
    from Cons.prems n pre have "mp = i" "ml = length pre + n" by simp_all
    moreover from match_plus_bound [OF n] have "0 < n" "n \<le> length (c # cs) - length pre" by simp_all
    moreover from pre have "length pre \<le> length (c # cs)" by (rule prefix_length_le)
    ultimately show ?thesis by simp
  next
    case False
    with Cons.prems have "search_plus pre cls suf cs (i + 1) = Some (mp, ml)"
      by (auto split: if_splits option.splits)
    from Cons.IH [OF this] show ?thesis by simp
  qed
qed

lemma regex_class_plus_proper:
  "regex_class_plus pre cls suf s = Some (mp, ml) \<Longrightarrow> 0 < ml \<and> mp + ml \<le> length s"
  unfolding regex_class_plus_def by (drule search_plus_proper) simp

section \<open>What the constructors build\<close>

lemma init_words: "simple_profanityList (SimpleReplacementFilter_init rc) =
    [''ass'', ''bastard'', ''bitch'', ''damn'', ''fuck'', ''shit'']"
  by (simp add: SimpleReplacementFilter_init_def defaultWords_def set_insert_def)

lemma init_patterns: "regex_profanityPatterns (RegexFilter_init compile_fragment rc) =
    [regex_literal ''shit'', regex_literal ''fuck'', regex_literal ''damn'', regex_literal ''ass'',
     regex_literal ''bitch'', regex_literal ''bastard'',
     regex_class_plus ''f'' ''aeiou*'' ''ck'', regex_class_plus ''sh'' ''aeiou*'' ''t'']"
  by (simp add: RegexFilter_init_def defaultPatterns_def addPattern_def compile_fragment_def regex_special_def)

lemma init_simple_rc [simp]: "simple_replacementChar (SimpleReplacementFilter_init rc) = rc"
  by (simp add: SimpleReplacementFilter_init_def)

lemma addPattern_rc [simp]: "regex_replacementChar (addPattern compile f p) = regex_replacementChar f"
  by (simp add: addPattern_def split: option.splits)

lemma foldl_addPattern_rc [simp]:
  "regex_replacementChar (foldl (addPattern compile) f ps) = regex_replacementChar f"
  by (induction ps arbitrary: f) simp_all

lemma init_regex_rc [simp]: "regex_replacementChar (RegexFilter_init compile rc) = rc"
  by (simp add: RegexFilter_init_def)

section \<open>The engines on a sample text\<close>

lemma ex_simple: "simple_censor (SimpleReplacementFilter_init CHR ''*'') ''Class'' = Some ''Cl***''"
  by (simp add: simple_censor_def init_words
      toLower_def tolower_def simple_scan.simps find_from.simps)

lemma ex_regex: "regex_censor (RegexFilter_init compile_fragment CHR ''*'') ''Class'' = Some ''Cl***''"
  by (simp add: regex_censor_def init_patterns
      toLower_def tolower_def regex_scan.simps find_from.simps regex_literal_def
      regex_class_plus_def mask_guarded.simps)

lemma ex_regex_masked:
  "regex_censor (RegexFilter_init compile_fragment CHR ''*'') ''Cl***'' = Some ''Cl***''"
  by (simp add: regex_censor_def init_patterns
      toLower_def tolower_def regex_scan.simps find_from.simps regex_literal_def
      regex_class_plus_def mask_guarded.simps)

lemma ex_trie: "trie_censor (TrieFilter_init CHR ''*'') ''Class'' = ''Cl***''"
  by (simp add: trie_censor_def TrieFilter_init_def defaultWords_def
      toLower_def tolower_def censor_outer.simps censor_inner.simps)

lemma ex_trie_masked: "trie_censor (TrieFilter_init CHR ''*'') ''Cl***'' = ''Cl***''"
  by (simp add: trie_censor_def TrieFilter_init_def defaultWords_def
      toLower_def tolower_def censor_outer.simps censor_inner.simps)

lemma ex_hybrid:
  "hybrid_censor (HybridFilter_init compile_fragment CHR ''*'') ''Class'' = Some ''Cl***''"
  using ex_simple ex_regex_masked ex_trie_masked
  by (simp add: hybrid_censor_def HybridFilter_init_def)

section \<open>Length preservation\<close>

text \<open>
  On every run that returns, \<^verbatim>\<open>censor\<close> gives a result as long as its input, for each
  of the four strategies. The trie's \<^verbatim>\<open>censor\<close> returns on every input; the
  literal-set's returns when no banned word is empty; the pattern-set's returns when every
  match the library reports is non-empty and inside the range searched; the composite's
  returns when this holds for its enabled literal-set and pattern-set engines.
\<close>

lemma censor_length_on_return:
  "(simple_censor sf text = Some r1 \<longrightarrow> length r1 = length text) \<and>
   ((\<forall>w\<in>set (simple_profanityList sf). w \<noteq> []) \<longrightarrow>
      (\<exists>r. simple_censor sf text = Some r \<and> length r = length text)) \<and>
   (regex_censor rf text = Some r2 \<longrightarrow> length r2 = length text) \<and>
   ((\<forall>p\<in>set (regex_profanityPatterns rf).
        \<forall>s mp ml. p s = Some (mp, ml) \<longrightarrow> 0 < ml \<and> mp + ml \<le> length s) \<longrightarrow>
      (\<exists>r. regex_censor rf text = Some r \<and> length r = length text)) \<and>
   length (trie_censor tf text) = length text \<and>
   (hybrid_censor h text = Some r3 \<longrightarrow> length r3 = length text) \<and>
   ((useSimpleFilter h \<longrightarrow> (\<forall>w\<in>set (simple_profanityList (simpleFilter h)). w \<noteq> [])) \<and>
    (useRegexFilter h \<longrightarrow> (\<forall>p\<in>set (regex_profanityPatterns (regexFilter h)).
        \<forall>s mp ml. p s = Some (mp, ml) \<longrightarrow> 0 < ml \<and> mp + ml \<le> length s)) \<longrightarrow>
      (\<exists>r. hybrid_censor h text = Some r \<and> length r = length text))"
proof (intro conjI impI)
  show "length r1 = length text" if "simple_censor sf text = Some r1"
    using that by (rule simple_censor_length)
  show "\<exists>r. simple_censor sf text = Some r \<and> length r = length text"
    if "\<forall>w\<in>set (simple_profanityList sf). w \<noteq> []"
    using simple_censor_total [OF that] simple_censor_length by blast
  show "length r2 = length text" if "regex_censor rf text = Some r2"
    using that by (rule regex_censor_length)
  show "\<exists>r. regex_censor rf text = Some r \<and> length r = length text"
    if "\<forall>p\<in>set (regex_profanityPatterns rf).
        \<forall>s mp ml. p s = Some (mp, ml) \<longrightarrow> 0 < ml \<and> mp + ml \<le> length s"
    using regex_censor_total [OF that] regex_censor_length by blast
  show "length (trie_censor tf text) = length text"
    by (rule trie_censor_length)
  show "length r3 = length text" if "hybrid_censor h text = Some r3"
    using that by (rule hybrid_censor_length)
  show "\<exists>r. hybrid_censor h text = Some r \<and> length r = length text"
    if "(useSimpleFilter h \<longrightarrow> (\<forall>w\<in>set (simple_profanityList (simpleFilter h)). w \<noteq> [])) \<and>
    (useRegexFilter h \<longrightarrow> (\<forall>p\<in>set (regex_profanityPatterns (regexFilter h)).
        \<forall>s mp ml. p s = Some (mp, ml) \<longrightarrow> 0 < ml \<and> mp + ml \<le> length s))"
    using hybrid_censor_total [of h "text"] that hybrid_censor_length by blast
qed

lemma init_patterns_proper:
  "\<forall>p\<in>set (regex_profanityPatterns (RegexFilter_init compile_fragment rc)).
      \<forall>s mp ml. p s = Some (mp, ml) \<longrightarrow> 0 < ml \<and> mp + ml \<le> length s"
  unfolding init_patterns
  by (auto dest: regex_class_plus_proper regex_literal_proper [rotated])

lemma censor_length_on_return_example:
  "simple_censor (SimpleReplacementFilter_init CHR ''*'') ''Class'' = Some ''Cl***'' \<and>
   length ''Cl***'' = length ''Class'' \<and>
   (\<exists>r. simple_censor (SimpleReplacementFilter_init CHR ''*'') ''Class'' = Some r \<and>
        length r = length ''Class'') \<and>
   regex_censor (RegexFilter_init compile_fragment CHR ''*'') ''Class'' = Some ''Cl***'' \<and>
   (\<exists>r. regex_censor (RegexFilter_init compile_fragment CHR ''*'') ''Class'' = Some r \<and>
        length r = length ''Class'') \<and>
   length (trie_censor (TrieFilter_init CHR ''*'') ''Class'') = length ''Class'' \<and>
   hybrid_censor (HybridFilter_init compile_fragment CHR ''*'') ''Class'' = Some ''Cl***'' \<and>
   (\<exists>r. hybrid_censor (HybridFilter_init compile_fragment CHR ''*'') ''Class'' = Some r \<and>
        length r = length ''Class'')"
proof -
  let ?sf = "SimpleReplacementFilter_init CHR ''*''"
  let ?rf = "RegexFilter_init compile_fragment CHR ''*''"
  let ?tf = "TrieFilter_init CHR ''*''"
  let ?h = "HybridFilter_init compile_fragment CHR ''*''"
  note s = ex_simple and r = ex_regex and h = ex_hybrid
  have ws: "\<forall>w\<in>set (simple_profanityList ?sf). w \<noteq> []"
    by (simp add: init_words)
  have hs: "(useSimpleFilter ?h \<longrightarrow> (\<forall>w\<in>set (simple_profanityList (simpleFilter ?h)). w \<noteq> [])) \<and>
    (useRegexFilter ?h \<longrightarrow> (\<forall>p\<in>set (regex_profanityPatterns (regexFilter ?h)).
        \<forall>s mp ml. p s = Some (mp, ml) \<longrightarrow> 0 < ml \<and> mp + ml \<le> length s))"
    using ws init_patterns_proper [of "CHR ''*''"] by (simp add: HybridFilter_init_def)
  from censor_length_on_return [of ?sf "''Class''" "''Cl***''" ?rf "''Cl***''" ?tf ?h "''Cl***''"]
    s r h ws hs init_patterns_proper [of "CHR ''*''"]
  show ?thesis by simp
qed

text \<open>
  Claim C1 (length preservation) at an input where the code does not meet it. With the
  empty word in the set (\<^verbatim>\<open>addProfanity("")\<close>), \<^verbatim>\<open>find\<close> succeeds at \<^verbatim>\<open>pos\<close>,
  \<^verbatim>\<open>pos += 0\<close> leaves it there, and the literal-set \<^verbatim>\<open>censor("a")\<close> returns no
  string at all; so does the composite, whose first stage it is. \<^verbatim>\<open>loadFromFile\<close> of
  the same class drops the empty word, and the trie's \<^verbatim>\<open>censor\<close> returns with the
  empty word added.
\<close>

theorem censor_empty_word_no_return:
  "simple_censor (simple_addProfanity (SimpleReplacementFilter_init CHR ''*'') []) ''a'' = None \<and>
   hybrid_censor
     (hybrid_addProfanity compile_fragment (HybridFilter_init compile_fragment CHR ''*'') [])
     ''a'' = None \<and>
   simple_censor (simple_loadFromFile (SimpleReplacementFilter_init CHR ''*'') (Some [[]])) ''a''
     = Some ''a'' \<and>
   trie_censor (trie_addProfanity (TrieFilter_init CHR ''*'') []) ''a'' = ''a''"
proof -
  have 1: "simple_censor (simple_addProfanity (SimpleReplacementFilter_init CHR ''*'') []) ''a'' = None"
    by (simp add: simple_censor_def simple_addProfanity_def init_words set_insert_def
        toLower_def simple_scan_empty_diverges)
  have 2: "hybrid_censor
     (hybrid_addProfanity compile_fragment (HybridFilter_init compile_fragment CHR ''*'') [])
     ''a'' = None"
    using 1 by (simp add: hybrid_censor_def hybrid_addProfanity_def HybridFilter_init_def)
  have 3: "simple_censor (simple_loadFromFile (SimpleReplacementFilter_init CHR ''*'') (Some [[]])) ''a''
     = Some ''a''"
    by (simp add: simple_censor_def simple_loadFromFile_def init_words
        toLower_def tolower_def simple_scan.simps find_from.simps)
  have 4: "trie_censor (trie_addProfanity (TrieFilter_init CHR ''*'') []) ''a'' = ''a''"
    by (simp add: trie_censor_def trie_addProfanity_def TrieFilter_init_def defaultWords_def
        toLower_def tolower_def censor_outer.simps censor_inner.simps)
  from 1 2 3 4 show ?thesis by simp
qed

section \<open>Text without a match is left alone\<close>

lemma simple_scan_no_match:
  "find_from lowerText word 0 = None \<Longrightarrow> simple_scan lowerText word rc 0 result = Some result"
  by (subst simple_scan.simps) simp

lemma simple_words_no_match:
  "\<forall>w\<in>set ws. find_from lowerText w 0 = None \<Longrightarrow> simple_words lowerText rc ws result = Some result"
  by (induction ws) (simp_all add: simple_scan_no_match)

lemma simple_censor_clean:
  "\<not> simple_containsProfanity f text \<Longrightarrow> simple_censor f text = Some text"
  by (simp add: simple_containsProfanity_def simple_censor_def list_ex_iff simple_words_no_match)

lemma regex_scan_no_match:
  "pattern lowerText = None \<Longrightarrow> regex_scan pattern lowerText rc 0 result = Some result"
  by (subst regex_scan.simps) simp

lemma regex_patterns_no_match:
  "\<forall>p\<in>set ps. p lowerText = None \<Longrightarrow> regex_patterns lowerText rc ps result = Some result"
  by (induction ps) (simp_all add: regex_scan_no_match)

lemma regex_censor_clean:
  "\<not> regex_containsProfanity f text \<Longrightarrow> regex_censor f text = Some text"
proof -
  assume a: "\<not> regex_containsProfanity f text"
  have "\<forall>p\<in>set (regex_profanityPatterns f). p (toLower text) = None"
  proof
    fix p assume "p \<in> set (regex_profanityPatterns f)"
    with a show "p (toLower text) = None"
      by (cases "p (toLower text)") (auto simp: regex_containsProfanity_def list_ex_iff)
  qed
  then show ?thesis
    unfolding regex_censor_def by (rule regex_patterns_no_match)
qed

lemma no_word_at_iff:
  assumes "j < length s"
  shows "no_word_at node s j \<longleftrightarrow>
    (case children node (s ! j) of None \<Rightarrow> True
     | Some n \<Rightarrow> \<not> isEndOfWord n \<and> no_word_at n s (Suc j))"
proof (cases "children node (s ! j)")
  case None
  have "\<not> trie_member node (take l (drop j s))" if "0 < l" for l
  proof -
    from that obtain l' where "l = Suc l'" by (cases l) auto
    with assms None show ?thesis by (simp add: take_Suc_drop)
  qed
  with None show ?thesis by (simp add: no_word_at_def)
next
  case (Some n)
  have "no_word_at node s j" if ne: "\<not> isEndOfWord n" and nw: "no_word_at n s (Suc j)"
    unfolding no_word_at_def
  proof
    fix l assume l: "l \<in> {0<..length s - j}"
    then obtain l' where l': "l = Suc l'" by (cases l) auto
    show "\<not> trie_member node (take l (drop j s))"
    proof (cases "l' = 0")
      case True
      with l' assms Some ne show ?thesis by (simp add: take_Suc_drop)
    next
      case False
      with l l' have "l' \<in> {0<..length s - Suc j}" by auto
      with nw have "\<not> trie_member n (take l' (drop (Suc j) s))"
        unfolding no_word_at_def by blast
      with l' assms Some show ?thesis by (simp add: take_Suc_drop)
    qed
  qed
  with no_word_at_step [OF _ assms Some] Some show ?thesis by auto
qed

lemma no_word_at_end: "\<not> j < length s \<Longrightarrow> no_word_at node s j"
  by (simp add: no_word_at_def)

lemma contains_inner_iff: "contains_inner node s j \<longleftrightarrow> \<not> no_word_at node s j"
proof (induction node s j rule: contains_inner.induct)
  case (1 node s j)
  show ?case
  proof (cases "j < length s")
    case False
    then show ?thesis by (simp add: contains_inner.simps no_word_at_end)
  next
    case True
    show ?thesis
    proof (cases "children node (s ! j)")
      case None
      with True show ?thesis by (simp add: contains_inner.simps no_word_at_iff)
    next
      case (Some n)
      show ?thesis
      proof (cases "isEndOfWord n")
        case e: True
        with True Some show ?thesis by (simp add: contains_inner.simps no_word_at_iff)
      next
        case e: False
        from "1.IH" [OF True Some e] True Some e show ?thesis
          by (subst contains_inner.simps) (simp add: no_word_at_iff)
      qed
    qed
  qed
qed

lemma contains_outer_iff:
  "contains_outer root s i \<longleftrightarrow> (\<exists>k. i \<le> k \<and> k < length s \<and> \<not> no_word_at root s k)"
proof (induction root s i rule: contains_outer.induct)
  case (1 root s i)
  show ?case
  proof (cases "i < length s")
    case False
    then show ?thesis by (subst contains_outer.simps) auto
  next
    case True
    show ?thesis
    proof (cases "contains_inner root s i")
      case c: True
      with True show ?thesis
        by (subst contains_outer.simps) (auto simp: contains_inner_iff)
    next
      case c: False
      have "(\<exists>k. i \<le> k \<and> k < length s \<and> \<not> no_word_at root s k) \<longleftrightarrow>
            (\<exists>k. i + 1 \<le> k \<and> k < length s \<and> \<not> no_word_at root s k)"
      proof
        assume "\<exists>k. i \<le> k \<and> k < length s \<and> \<not> no_word_at root s k"
        then obtain k where k: "i \<le> k" "k < length s" "\<not> no_word_at root s k" by blast
        with c have "k \<noteq> i" by (auto simp: contains_inner_iff)
        with k have "i + 1 \<le> k" by simp
        with k show "\<exists>k. i + 1 \<le> k \<and> k < length s \<and> \<not> no_word_at root s k" by blast
      next
        assume "\<exists>k. i + 1 \<le> k \<and> k < length s \<and> \<not> no_word_at root s k"
        then obtain k where k: "i + 1 \<le> k" "k < length s" "\<not> no_word_at root s k" by blast
        then have "i \<le> k" by simp
        with k show "\<exists>k. i \<le> k \<and> k < length s \<and> \<not> no_word_at root s k" by blast
      qed
      with "1.IH" [OF True c] True c show ?thesis
        by (subst contains_outer.simps) simp
    qed
  qed
qed

lemma censor_outer_clean:
  "\<forall>k. i \<le> k \<and> k < length s \<longrightarrow> no_word_at root s k \<Longrightarrow> censor_outer root rc s i result = result"
proof (induction "length s - i" arbitrary: i rule: less_induct)
  case less
  show ?case
  proof (cases "i < length s")
    case False
    then show ?thesis by (simp add: censor_outer_end)
  next
    case True
    with less.prems have nw: "no_word_at root s i" by simp
    from True have "length s - (i + 1) < length s - i" by simp
    from less.hyps [OF this] less.prems
    have "censor_outer root rc s (i + 1) result = result" by simp
    with censor_outer_no_word [OF True nw] show ?thesis by simp
  qed
qed

lemma trie_censor_clean:
  "\<not> trie_containsProfanity f text \<Longrightarrow> trie_censor f text = text"
  by (simp add: trie_containsProfanity_def trie_censor_def contains_outer_iff censor_outer_clean)

lemma hybrid_censor_clean:
  "\<not> hybrid_containsProfanity h text \<Longrightarrow> hybrid_censor h text = Some text"
  by (auto simp: hybrid_containsProfanity_def hybrid_censor_def simple_censor_clean
      regex_censor_clean trie_censor_clean split: if_splits)

lemma ex_simple_contains: "simple_containsProfanity (SimpleReplacementFilter_init CHR ''*'') ''Class''"
  by (simp add: simple_containsProfanity_def init_words toLower_def tolower_def find_from.simps)

lemma ex_simple_clean: "\<not> simple_containsProfanity (SimpleReplacementFilter_init CHR ''*'') ''Cl***''"
  by (simp add: simple_containsProfanity_def init_words toLower_def tolower_def find_from.simps)

lemma ex_regex_clean:
  "\<not> regex_containsProfanity (RegexFilter_init compile_fragment CHR ''*'') ''Cl***''"
  by (simp add: regex_containsProfanity_def init_patterns toLower_def tolower_def
      find_from.simps regex_literal_def regex_class_plus_def)

lemma ex_trie_contains: "trie_containsProfanity (TrieFilter_init CHR ''*'') ''Class''"
  by (simp add: trie_containsProfanity_def TrieFilter_init_def defaultWords_def
      toLower_def tolower_def contains_outer.simps contains_inner.simps)

lemma ex_trie_clean: "\<not> trie_containsProfanity (TrieFilter_init CHR ''*'') ''Cl***''"
  by (simp add: trie_containsProfanity_def TrieFilter_init_def defaultWords_def
      toLower_def tolower_def contains_outer.simps contains_inner.simps)

lemma ex_hybrid_clean:
  "\<not> hybrid_containsProfanity (HybridFilter_init compile_fragment CHR ''*'') ''Cl***''"
  using ex_simple_clean ex_regex_clean ex_trie_clean
  by (simp add: hybrid_containsProfanity_def HybridFilter_init_def)

lemma simple_censor_diverges_contains:
  assumes "simple_censor f text = None"
  shows "simple_containsProfanity f text"
proof (rule ccontr)
  assume "\<not> simple_containsProfanity f text"
  from simple_censor_clean [OF this] assms show False by simp
qed

section \<open>Detection consistency\<close>

text \<open>
  Claim C5. For the literal-set and the trie strategy, a \<^verbatim>\<open>censor\<close> that returns
  something other than its input implies that \<^verbatim>\<open>containsProfanity\<close> is true on that
  input. (A literal-set \<^verbatim>\<open>censor\<close> that does not return implies it as well.)
\<close>

theorem detection_consistency:
  "(simple_censor sf text = Some r \<longrightarrow> r \<noteq> text \<longrightarrow> simple_containsProfanity sf text) \<and>
   (simple_censor sf text = None \<longrightarrow> simple_containsProfanity sf text) \<and>
   (trie_censor tf text \<noteq> text \<longrightarrow> trie_containsProfanity tf text)"
proof (intro conjI impI)
  show "simple_containsProfanity sf text" if "simple_censor sf text = Some r" and "r \<noteq> text"
  proof (rule ccontr)
    assume "\<not> simple_containsProfanity sf text"
    from simple_censor_clean [OF this] that show False by simp
  qed
  show "simple_containsProfanity sf text" if "simple_censor sf text = None"
    using that by (rule simple_censor_diverges_contains)
  show "trie_containsProfanity tf text" if "trie_censor tf text \<noteq> text"
  proof (rule ccontr)
    assume "\<not> trie_containsProfanity tf text"
    from trie_censor_clean [OF this] that show False by simp
  qed
qed

theorem detection_consistency_witness:
  "simple_censor (SimpleReplacementFilter_init CHR ''*'') ''Class'' = Some ''Cl***'' \<and>
   ''Cl***'' \<noteq> ''Class'' \<and>
   simple_containsProfanity (SimpleReplacementFilter_init CHR ''*'') ''Class'' \<and>
   trie_censor (TrieFilter_init CHR ''*'') ''Class'' \<noteq> ''Class'' \<and>
   trie_containsProfanity (TrieFilter_init CHR ''*'') ''Class''"
  using detection_consistency [of "SimpleReplacementFilter_init CHR ''*''" "''Class''" "''Cl***''"
      "TrieFilter_init CHR ''*''"] ex_simple ex_trie
  by simp

section \<open>Stability of a clean output\<close>

text \<open>
  Claim C8. For every strategy: if \<^verbatim>\<open>containsProfanity\<close> is false on the output of
  \<^verbatim>\<open>censor\<close>, censoring that output again returns it unchanged.
\<close>

theorem censor_stable:
  "(simple_censor sf text = Some r1 \<longrightarrow> \<not> simple_containsProfanity sf r1 \<longrightarrow>
      simple_censor sf r1 = Some r1) \<and>
   (regex_censor rf text = Some r2 \<longrightarrow> \<not> regex_containsProfanity rf r2 \<longrightarrow>
      regex_censor rf r2 = Some r2) \<and>
   (\<not> trie_containsProfanity tf (trie_censor tf text) \<longrightarrow>
      trie_censor tf (trie_censor tf text) = trie_censor tf text) \<and>
   (hybrid_censor h text = Some r3 \<longrightarrow> \<not> hybrid_containsProfanity h r3 \<longrightarrow>
      hybrid_censor h r3 = Some r3)"
  by (simp add: simple_censor_clean regex_censor_clean trie_censor_clean hybrid_censor_clean)

theorem censor_stable_witness:
  "simple_censor (SimpleReplacementFilter_init CHR ''*'') ''Cl***'' = Some ''Cl***'' \<and>
   regex_censor (RegexFilter_init compile_fragment CHR ''*'') ''Cl***'' = Some ''Cl***'' \<and>
   trie_censor (TrieFilter_init CHR ''*'') (trie_censor (TrieFilter_init CHR ''*'') ''Class'') =
     trie_censor (TrieFilter_init CHR ''*'') ''Class'' \<and>
   hybrid_censor (HybridFilter_init compile_fragment CHR ''*'') ''Cl***'' = Some ''Cl***''"
proof -
  have "\<not> trie_containsProfanity (TrieFilter_init CHR ''*'')
          (trie_censor (TrieFilter_init CHR ''*'') ''Class'')"
    using ex_trie_clean by (simp add: ex_trie)
  with censor_stable [of "SimpleReplacementFilter_init CHR ''*''" "''Class''" "''Cl***''"
      "RegexFilter_init compile_fragment CHR ''*''" "''Cl***''" "TrieFilter_init CHR ''*''"
      "HybridFilter_init compile_fragment CHR ''*''" "''Cl***''"]
    ex_simple ex_regex ex_hybrid ex_simple_clean ex_regex_clean ex_hybrid_clean
  show ?thesis by simp
qed

section \<open>Termination of the literal-set scan\<close>

lemma find_from_advance:
  "find_from s word pos = Some p \<Longrightarrow> word \<noteq> [] \<Longrightarrow> pos < p + length word"
  by (drule find_from_Some) (cases word, auto)

lemma simple_scan_steps_sound:
  "simple_scan_steps n lowerText word rc pos result = Some y \<Longrightarrow>
   simple_scan lowerText word rc pos result = Some y"
proof (induction n arbitrary: pos result)
  case 0
  then show ?case by (subst simple_scan.simps) (auto split: option.splits)
next
  case (Suc n)
  show ?case
  proof (cases "find_from lowerText word pos")
    case None
    with Suc.prems show ?thesis by (subst simple_scan.simps) simp
  next
    case (Some p)
    with Suc.prems Suc.IH show ?thesis by (subst simple_scan.simps) simp
  qed
qed

lemma simple_scan_steps_enough:
  "word \<noteq> [] \<Longrightarrow> length lowerText - pos \<le> n \<Longrightarrow>
   \<exists>y. simple_scan_steps n lowerText word rc pos result = Some y"
proof (induction n arbitrary: pos result)
  case 0
  have "find_from lowerText word pos = None"
  proof (cases "find_from lowerText word pos")
    case (Some p)
    from find_from_Some [OF Some] "0.prems" show ?thesis by (cases word) auto
  qed simp
  then show ?case by simp
next
  case (Suc n)
  show ?case
  proof (cases "find_from lowerText word pos")
    case None
    then show ?thesis by simp
  next
    case (Some p)
    from find_from_Some [OF Some] Suc.prems
    have "length lowerText - (p + length word) \<le> n" by (cases word) auto
    from Suc.IH [OF Suc.prems(1) this] Some show ?thesis by simp
  qed
qed

text \<open>
  Claim C10. When no word of the set is empty, the literal-set \<^verbatim>\<open>censor\<close> returns on
  every input: every successful \<^verbatim>\<open>find\<close> moves \<^verbatim>\<open>pos\<close> strictly forward, and for each
  word the scan from position 0 ends within \<open>length text\<close> runs of the loop body,
  whatever the contents of \<open>result\<close>.
\<close>

theorem simple_censor_terminates:
  assumes "\<forall>w\<in>set (simple_profanityList f). w \<noteq> []"
  shows "(\<exists>r. simple_censor f text = Some r) \<and>
    (\<forall>w\<in>set (simple_profanityList f). \<forall>pos p.
        find_from (toLower text) w pos = Some p \<longrightarrow> pos < p + length w) \<and>
    (\<forall>w\<in>set (simple_profanityList f). \<forall>result. \<exists>r.
        simple_scan_steps (length text) (toLower text) w (simple_replacementChar f) 0 result = Some r \<and>
        simple_scan (toLower text) w (simple_replacementChar f) 0 result = Some r)"
proof (intro conjI ballI allI impI)
  show "\<exists>r. simple_censor f text = Some r"
    using assms by (rule simple_censor_total)
next
  fix w pos p
  assume "w \<in> set (simple_profanityList f)" and "find_from (toLower text) w pos = Some p"
  with assms show "pos < p + length w" by (auto intro: find_from_advance)
next
  fix w result
  assume "w \<in> set (simple_profanityList f)"
  with assms have "w \<noteq> []" by blast
  from simple_scan_steps_enough [OF this, of "toLower text" 0 "length text"]
  obtain r where "simple_scan_steps (length text) (toLower text) w (simple_replacementChar f) 0 result = Some r"
    by auto
  with simple_scan_steps_sound [OF this]
  show "\<exists>r. simple_scan_steps (length text) (toLower text) w (simple_replacementChar f) 0 result = Some r \<and>
        simple_scan (toLower text) w (simple_replacementChar f) 0 result = Some r" by blast
qed

theorem simple_censor_terminates_witness:
  "(\<exists>r. simple_censor (SimpleReplacementFilter_init CHR ''*'') ''Class'' = Some r) \<and>
   (\<exists>r. simple_scan_steps (length ''Class'') (toLower ''Class'') ''ass'' CHR ''*'' 0 ''Class'' = Some r \<and>
        simple_scan (toLower ''Class'') ''ass'' CHR ''*'' 0 ''Class'' = Some r)"
proof -
  have ws: "\<forall>w\<in>set (simple_profanityList (SimpleReplacementFilter_init CHR ''*'')). w \<noteq> []"
    by (simp add: init_words)
  from simple_censor_terminates [OF ws, of "''Class''"]
  show ?thesis by (simp add: init_words)
qed

section \<open>What the literal-set scan masks\<close>

lemma nth_mask:
  "k < length result \<Longrightarrow>
   mask_range result pos n rc ! k = (if pos \<le> k \<and> k < pos + n then rc else result ! k)"
proof (induction n)
  case 0
  then show ?case by auto
next
  case (Suc n)
  show ?case
  proof (cases "k = pos + n")
    case True
    with Suc.prems show ?thesis by simp
  next
    case False
    with Suc show ?thesis by auto
  qed
qed


lemma find_from_None:
  "find_from s word pos = None \<Longrightarrow> pos \<le> q \<Longrightarrow> q + length word \<le> length s \<Longrightarrow>
   \<not> prefix word (drop q s)"
proof (induction s word pos rule: find_from.induct)
  case (1 s word pos)
  from "1.prems" have a: "\<not> length s < pos + length word" by simp
  from "1.prems"(1) a have np: "\<not> prefix word (drop pos s)"
    by (subst (asm) find_from.simps) (auto split: if_splits)
  with "1.prems"(1) a have n: "find_from s word (pos + 1) = None"
    by (subst (asm) find_from.simps) simp
  show ?case
  proof (cases "pos = q")
    case True
    with np show ?thesis by simp
  next
    case False
    with "1.IH" [OF a np n] "1.prems" show ?thesis by simp
  qed
qed









section \<open>Overlapping occurrences in the literal-set strategy\<close>





section \<open>The pattern-set strategy searches the case-folded input\<close>







lemma regex_addProfanity_rc [simp]:
  "regex_replacementChar (regex_addProfanity compile f word) = regex_replacementChar f"
  by (simp add: regex_addProfanity_def)








section \<open>The visits of the trie's outer loop\<close>

lemma censor_visits_cases:
  assumes "i < length s"
  obtains (none) "no_word_at root s i"
      "censor_visits root s i = (i, None, 0) # censor_visits root s (i + 1)"
  | (word) L where "longest_word_at root s i L" "0 < L" "i + L \<le> length s"
      "censor_visits root s i = (i, Some (i + L - 1), L) # censor_visits root s (i + L)"
proof -
  from word_at_cases [of root s i] show thesis
  proof
    assume nw: "no_word_at root s i"
    with censor_visits_no_word [OF assms nw] none show thesis by blast
  next
    assume "\<exists>L. longest_word_at root s i L"
    then obtain L where L: "longest_word_at root s i L" ..
    then have "0 < L" "i + L \<le> length s" by (auto simp: longest_word_at_def)
    with L censor_visits_word [OF L] word show thesis by blast
  qed
qed

lemma censor_visits_bounds:
  "(i, we, wl) \<in> set (censor_visits root s i0) \<Longrightarrow>
   i0 \<le> i \<and> i < length s \<and>
   (case we of None \<Rightarrow> wl = 0 \<and> no_word_at root s i
    | Some e \<Rightarrow> 0 < wl \<and> e + 1 = i + wl \<and> i + wl \<le> length s \<and> longest_word_at root s i wl)"
proof (induction "length s - i0" arbitrary: i0 rule: less_induct)
  case less
  show ?case
  proof (cases "i0 < length s")
    case False
    with less.prems show ?thesis by (simp add: censor_visits_end)
  next
    case True
    then show ?thesis
    proof (cases rule: censor_visits_cases [where root = root])
      case none
      from True have m: "length s - (i0 + 1) < length s - i0" by simp
      from less.prems none(2)
      have "(i, we, wl) = (i0, None, 0) \<or> (i, we, wl) \<in> set (censor_visits root s (i0 + 1))"
        by simp
      then show ?thesis
      proof
        assume "(i, we, wl) = (i0, None, 0)"
        with True none(1) show ?thesis by simp
      next
        assume "(i, we, wl) \<in> set (censor_visits root s (i0 + 1))"
        from less.hyps [OF m this] show ?thesis by simp
      qed
    next
      case (word L)
      from True word(2) have m: "length s - (i0 + L) < length s - i0" by simp
      from less.prems word(4)
      have "(i, we, wl) = (i0, Some (i0 + L - 1), L) \<or> (i, we, wl) \<in> set (censor_visits root s (i0 + L))"
        by simp
      then show ?thesis
      proof
        assume "(i, we, wl) = (i0, Some (i0 + L - 1), L)"
        with True word(1,2,3) show ?thesis by simp
      next
        assume "(i, we, wl) \<in> set (censor_visits root s (i0 + L))"
        from less.hyps [OF m this] show ?thesis by simp
      qed
    qed
  qed
qed

lemma censor_visits_sorted:
  "sorted_wrt (\<lambda>(i, we, wl) (i', we', wl'). i + max 1 wl \<le> i') (censor_visits root s i0)"
proof (induction "length s - i0" arbitrary: i0 rule: less_induct)
  case less
  show ?case
  proof (cases "i0 < length s")
    case False
    then show ?thesis by (simp add: censor_visits_end)
  next
    case True
    then show ?thesis
    proof (cases rule: censor_visits_cases [where root = root])
      case none
      from True have m: "length s - (i0 + 1) < length s - i0" by simp
      have "i0 + 1 \<le> i'" if "(i', we', wl') \<in> set (censor_visits root s (i0 + 1))" for i' we' wl'
        using censor_visits_bounds [OF that] by simp
      with less [OF m] none(2) show ?thesis by auto
    next
      case (word L)
      from True word(2) have m: "length s - (i0 + L) < length s - i0" by simp
      have "i0 + L \<le> i'" if "(i', we', wl') \<in> set (censor_visits root s (i0 + L))" for i' we' wl'
        using censor_visits_bounds [OF that] by simp
      with less [OF m] word(2,4) show ?thesis by (auto simp: max_def)
    qed
  qed
qed

lemma censor_visits_skip:
  assumes v: "(i, Some e, wl) \<in> set (censor_visits root s i0)"
    and v': "(i', we', wl') \<in> set (censor_visits root s i0)"
  shows "\<not> (i < i' \<and> i' < i + wl)"
proof
  assume inside: "i < i' \<and> i' < i + wl"
  let ?vs = "censor_visits root s i0"
  let ?R = "\<lambda>(i, we, wl) (i', we', wl'). i + max 1 wl \<le> (i'::nat)"
  from v obtain m where m: "m < length ?vs" "?vs ! m = (i, Some e, wl)"
    by (auto simp: in_set_conv_nth)
  from v' obtain n where n: "n < length ?vs" "?vs ! n = (i', we', wl')"
    by (auto simp: in_set_conv_nth)
  have srt: "sorted_wrt ?R ?vs" by (rule censor_visits_sorted)
  consider "m < n" | "n < m" | "m = n" by linarith
  then show False
  proof cases
    case 1
    from sorted_wrt_nth_less [OF srt 1 n(1)] m(2) n(2) inside show False by simp
  next
    case 2
    from sorted_wrt_nth_less [OF srt 2 m(1)] m(2) n(2) inside show False by simp
  next
    case 3
    with m(2) n(2) inside show False by simp
  qed
qed

lemma censor_outer_visits:
  "censor_outer root rc s i0 result =
   foldl (\<lambda>r (i, we, wl). case we of None \<Rightarrow> r | Some e \<Rightarrow> mask_range r i wl rc) result
     (censor_visits root s i0)"
proof (induction "length s - i0" arbitrary: i0 result rule: less_induct)
  case less
  show ?case
  proof (cases "i0 < length s")
    case False
    then show ?thesis by (simp add: censor_visits_end censor_outer_end)
  next
    case True
    then show ?thesis
    proof (cases rule: censor_visits_cases [where root = root])
      case none
      from True have m: "length s - (i0 + 1) < length s - i0" by simp
      from less [OF m] none(2) censor_outer_no_word [OF True none(1)] show ?thesis by simp
    next
      case (word L)
      from True word(2) have m: "length s - (i0 + L) < length s - i0" by simp
      from less [OF m] word(4) censor_outer_word [OF word(1)] show ?thesis by simp
    qed
  qed
qed

lemma censor_visits_next:
  assumes "Suc n < length (censor_visits root s i0)"
    and "censor_visits root s i0 ! n = (i, we, wl)"
  shows "fst (censor_visits root s i0 ! Suc n) = (case we of None \<Rightarrow> i + 1 | Some e \<Rightarrow> e + 1)"
  using assms
proof (induction n arbitrary: i0)
  case 0
  then have lt: "i0 < length s" by (cases "i0 < length s") (simp_all add: censor_visits_end)
  then show ?case
  proof (cases rule: censor_visits_cases [where root = root])
    case none
    from "0.prems" none(2) have nonempty: "censor_visits root s (i0 + 1) \<noteq> []" by auto
    then have lt': "i0 + 1 < length s" by (cases "i0 + 1 < length s") (simp_all add: censor_visits_end)
    have "fst (hd (censor_visits root s (i0 + 1))) = i0 + 1"
      using lt' by (cases rule: censor_visits_cases [where root = root and i = "i0 + 1"]) simp_all
    with "0.prems" none(2) nonempty show ?thesis by (simp add: hd_conv_nth)
  next
    case (word L)
    from "0.prems" word(4) have nonempty: "censor_visits root s (i0 + L) \<noteq> []" by auto
    then have lt': "i0 + L < length s" by (cases "i0 + L < length s") (simp_all add: censor_visits_end)
    have "fst (hd (censor_visits root s (i0 + L))) = i0 + L"
      using lt' by (cases rule: censor_visits_cases [where root = root and i = "i0 + L"]) simp_all
    with "0.prems" word(2,4) nonempty show ?thesis by (auto simp: hd_conv_nth)
  qed
next
  case (Suc n)
  then have lt: "i0 < length s" by (cases "i0 < length s") (simp_all add: censor_visits_end)
  then show ?case
  proof (cases rule: censor_visits_cases [where root = root])
    case none
    with Suc.prems Suc.IH [of "i0 + 1"] show ?thesis by simp
  next
    case (word L)
    with Suc.prems Suc.IH [of "i0 + L"] show ?thesis by simp
  qed
qed

section \<open>The words of a trie\<close>

lemma trie_member_empty [simp]: "\<not> trie_member (TrieNode Map.empty False) w"
  by (cases w) simp_all

lemma trie_member_addToTrie:
  "trie_member (addToTrie node w) v \<longleftrightarrow> v = w \<or> trie_member node v"
proof (induction w arbitrary: node v)
  case Nil
  then show ?case by (cases v) auto
next
  case (Cons c cs)
  show ?case
  proof (cases v)
    case Nil
    then show ?thesis by (simp add: Let_def)
  next
    case (Cons d ds)
    show ?thesis
    proof (cases "d = c")
      case True
      with Cons Cons.IH show ?thesis
        by (cases "children node c") (simp_all add: Let_def)
    next
      case False
      with Cons show ?thesis by (simp add: Let_def)
    qed
  qed
qed

lemma trie_member_foldl:
  "trie_member (foldl addToTrie node ws) v \<longleftrightarrow> v \<in> set ws \<or> trie_member node v"
  by (induction ws arbitrary: node) (auto simp: trie_member_addToTrie)

lemma trie_member_init:
  "trie_member (trie_root (TrieFilter_init rc)) v \<longleftrightarrow> v \<in> set defaultWords"
  by (simp add: TrieFilter_init_def trie_member_foldl)

lemma trie_member_addProfanity:
  "trie_member (trie_root (trie_addProfanity f w)) v \<longleftrightarrow> v = toLower w \<or> trie_member (trie_root f) v"
  by (simp add: trie_addProfanity_def trie_member_addToTrie)

lemma trie_member_addProfanities:
  "trie_member (trie_root (foldl trie_addProfanity f ws)) v \<longleftrightarrow>
   v \<in> toLower ` set ws \<or> trie_member (trie_root f) v"
  by (induction ws arbitrary: f) (auto simp: trie_member_addProfanity)

lemma censor_inner_Some:
  assumes "censor_inner root s i i (None, 0) = (Some wordEnd, wordLength)"
  shows "longest_word_at root s i wordLength \<and> wordEnd + 1 = i + wordLength"
proof -
  from word_at_cases [of root s i] show ?thesis
  proof
    assume "no_word_at root s i"
    from censor_inner_none [OF this, of i "(None, 0)"] assms show ?thesis by simp
  next
    assume "\<exists>L. longest_word_at root s i L"
    then obtain L where L: "longest_word_at root s i L" ..
    then have "0 < L" by (simp add: longest_word_at_def)
    with censor_inner_longest [OF L, of i "(None, 0)"] assms L show ?thesis by auto
  qed
qed

lemma censor_inner_None:
  assumes "fst (censor_inner root s i i (None, 0)) = None"
  shows "no_word_at root s i"
proof -
  from word_at_cases [of root s i] show ?thesis
  proof
    assume "\<exists>L. longest_word_at root s i L"
    then obtain L where L: "longest_word_at root s i L" ..
    from censor_inner_longest [OF L, of i "(None, 0)"] assms show ?thesis by simp
  qed
qed

section \<open>Longest match and skip on match\<close>

lemma ex_assassin:
  "trie_censor (trie_addProfanity (TrieFilter_init CHR ''*'') ''assassin'') ''assassin'' = ''********''"
  by (simp add: trie_censor_def trie_addProfanity_def TrieFilter_init_def defaultWords_def
      censor_outer.simps censor_inner.simps toLower_def tolower_def)

lemma ex_assassin_longest:
  "longest_word_at (trie_root (trie_addProfanity (TrieFilter_init CHR ''*'') ''assassin''))
     (toLower ''assassin'') 0 8"
  by (simp add: longest_word_at_def trie_addProfanity_def TrieFilter_init_def defaultWords_def
      toLower_def tolower_def)

lemma nth_foldl_visits:
  "k < length result \<Longrightarrow>
   foldl (\<lambda>r (j, we, wl). case we of None \<Rightarrow> r | Some e \<Rightarrow> mask_range r j wl rc) result vs ! k =
     (if \<exists>(j, we, wl)\<in>set vs. we \<noteq> None \<and> j \<le> k \<and> k < j + wl then rc else result ! k)"
proof (induction vs arbitrary: result)
  case Nil
  then show ?case by simp
next
  case (Cons v vs)
  obtain j we wl where v: "v = (j, we, wl)" by (cases v)
  show ?case
  proof (cases we)
    case None
    with Cons.IH [OF Cons.prems] v show ?thesis by simp
  next
    case (Some e)
    from Cons.prems have "k < length (mask_range result j wl rc)" by simp
    from Cons.IH [OF this] Cons.prems v Some show ?thesis
      by (auto simp: nth_mask)
  qed
qed

lemma trie_censor_nth:
  assumes "k < length text"
  shows "trie_censor f text ! k =
     (if \<exists>(j, we, wl)\<in>set (censor_visits (trie_root f) (toLower text) 0).
           we \<noteq> None \<and> j \<le> k \<and> k < j + wl
      then trie_replacementChar f else text ! k)"
  using assms by (simp add: trie_censor_def censor_outer_visits nth_foldl_visits)

lemma censor_visits_first:
  "0 < length s \<Longrightarrow> \<exists>we wl. hd (censor_visits root s 0) = (0, we, wl) \<and> censor_visits root s 0 \<noteq> []"
  by (cases rule: censor_visits_cases [where root = root and i = 0 and s = s]) simp_all

lemma trie_censor_first_word:
  assumes L: "longest_word_at (trie_root f) (toLower text) 0 L" and k: "k < L"
  shows "trie_censor f text ! k = trie_replacementChar f"
proof -
  from L have b: "0 < L" "L \<le> length text" by (auto simp: longest_word_at_def)
  from censor_visits_word [OF L]
  have "(0, Some (L - 1), L) \<in> set (censor_visits (trie_root f) (toLower text) 0)" by simp
  with k have "\<exists>(j, we, wl)\<in>set (censor_visits (trie_root f) (toLower text) 0).
           we \<noteq> None \<and> j \<le> k \<and> k < j + wl" by force
  moreover from k b have "k < length text" by simp
  ultimately show ?thesis by (simp add: trie_censor_nth)
qed

lemma ex_an_assassin:
  "trie_censor (trie_addProfanity (TrieFilter_init CHR ''*'') ''assassin'') ''An Assassin''
     = ''An ********''"
  by (simp add: trie_censor_def trie_addProfanity_def TrieFilter_init_def defaultWords_def
      censor_outer.simps censor_inner.simps toLower_def tolower_def)

lemma ex_an_assassin_longest:
  "longest_word_at (trie_root (trie_addProfanity (TrieFilter_init CHR ''*'') ''assassin''))
     (toLower ''An Assassin'') 3 8"
  by (simp add: longest_word_at_def trie_addProfanity_def TrieFilter_init_def defaultWords_def
      toLower_def tolower_def)

lemma ex_an_assassin_no_word:
  "no_word_at (trie_root (trie_addProfanity (TrieFilter_init CHR ''*'') ''assassin''))
     (toLower ''An Assassin'') 0"
proof -
  have "\<not> contains_inner (trie_root (trie_addProfanity (TrieFilter_init CHR ''*'') ''assassin''))
     (toLower ''An Assassin'') 0"
    by (simp add: trie_addProfanity_def TrieFilter_init_def defaultWords_def
        toLower_def tolower_def contains_inner.simps)
  then show ?thesis by (simp add: contains_inner_iff)
qed

lemma ex_an_assassin_visits:
  "censor_visits (trie_root (trie_addProfanity (TrieFilter_init CHR ''*'') ''assassin''))
     (toLower ''An Assassin'') 0 = [(0, None, 0), (1, None, 0), (2, None, 0), (3, Some 10, 8)]"
  by (simp add: trie_addProfanity_def TrieFilter_init_def defaultWords_def
      censor_visits.simps censor_inner.simps toLower_def tolower_def)

text \<open>
  Claim C2. The words of a trie built by the constructor and \<^verbatim>\<open>addProfanity\<close> are the
  default words and the case-folded added words, so the longest word of the trie at an
  index is the longest banned word there. At a start index either no non-empty word of
  the trie begins, and the inner walk of \<^verbatim>\<open>censor\<close> reports no match, or there is a
  longest one, of length \<open>L\<close>, and the walk reports exactly it
  (\<^verbatim>\<open>wordEnd = i + L - 1\<close>, \<^verbatim>\<open>wordLength = L\<close>). The outer loop is fixed by its three
  cases: past the end it returns \<open>result\<close>; at an index without a word it goes on from
  the next index with \<open>result\<close> untouched; at an index with a longest word of length \<open>L\<close>
  it overwrites exactly the \<open>L\<close> characters from that index and goes on behind them.
  \<^verbatim>\<open>censor\<close> is this loop from index 0 on the input. Hence every index the loop visits
  carries either no word or its longest word, and the output is the input with exactly the
  spans of those longest words masked; in particular a longest word at index 0 is masked
  whole. With \<^verbatim>\<open>"assassin"\<close> added to the default words (which hold \<^verbatim>\<open>"ass"\<close>),
  \<^verbatim>\<open>censor("assassin")\<close> masks all 8 characters.
\<close>

theorem trie_censor_longest_match:
  "(trie_member (trie_root (foldl trie_addProfanity (TrieFilter_init rc0) ws)) w \<longleftrightarrow>
      w \<in> set defaultWords \<union> toLower ` set ws) \<and>
   (longest_word_at (trie_root (foldl trie_addProfanity (TrieFilter_init rc0) ws)) s i L \<longleftrightarrow>
      0 < L \<and> i + L \<le> length s \<and>
      take L (drop i s) \<in> set defaultWords \<union> toLower ` set ws \<and>
      (\<forall>l\<in>{L<..length s - i}. take l (drop i s) \<notin> set defaultWords \<union> toLower ` set ws)) \<and>
   (no_word_at (trie_root f) (toLower text) i \<or>
      (\<exists>L. longest_word_at (trie_root f) (toLower text) i L)) \<and>
   (longest_word_at (trie_root f) (toLower text) i L \<longrightarrow>
      censor_inner (trie_root f) (toLower text) i i (None, 0) = (Some (i + L - 1), L) \<and>
      censor_outer (trie_root f) rc (toLower text) i result =
        censor_outer (trie_root f) rc (toLower text) (i + L) (mask_range result i L rc) \<and>
      length (mask_range result i L rc) = length result \<and>
      (\<forall>k<length result. mask_range result i L rc ! k =
          (if i \<le> k \<and> k < i + L then rc else result ! k))) \<and>
   (no_word_at (trie_root f) (toLower text) n \<longrightarrow>
      censor_inner (trie_root f) (toLower text) n n (None, 0) = (None, 0)) \<and>
   (n < length text \<and> no_word_at (trie_root f) (toLower text) n \<longrightarrow>
      censor_outer (trie_root f) rc (toLower text) n result =
        censor_outer (trie_root f) rc (toLower text) (n + 1) result) \<and>
   (\<not> m < length text \<longrightarrow> censor_outer (trie_root f) rc (toLower text) m result = result) \<and>
   trie_censor f text = censor_outer (trie_root f) (trie_replacementChar f) (toLower text) 0 text \<and>
   (\<forall>(j, we, wl)\<in>set (censor_visits (trie_root f) (toLower text) 0).
      case we of None \<Rightarrow> no_word_at (trie_root f) (toLower text) j
      | Some e \<Rightarrow> longest_word_at (trie_root f) (toLower text) j wl) \<and>
   (0 < length text \<longrightarrow>
      (\<exists>we wl. hd (censor_visits (trie_root f) (toLower text) 0) = (0, we, wl) \<and>
         censor_visits (trie_root f) (toLower text) 0 \<noteq> [])) \<and>
   length (trie_censor f text) = length text \<and>
   (\<forall>k<length text. trie_censor f text ! k =
      (if \<exists>(j, we, wl)\<in>set (censor_visits (trie_root f) (toLower text) 0).
            we \<noteq> None \<and> j \<le> k \<and> k < j + wl
       then trie_replacementChar f else text ! k)) \<and>
   (longest_word_at (trie_root f) (toLower text) 0 L0 \<longrightarrow>
      (\<forall>k<L0. trie_censor f text ! k = trie_replacementChar f)) \<and>
   trie_censor (trie_addProfanity (TrieFilter_init CHR ''*'') ''assassin'') ''assassin'' = ''********''"
proof (intro conjI impI)
  let ?B = "set defaultWords \<union> toLower ` set ws"
  have mem: "trie_member (trie_root (foldl trie_addProfanity (TrieFilter_init rc0) ws)) v \<longleftrightarrow> v \<in> ?B"
    for v
    by (auto simp: trie_member_addProfanities trie_member_init)
  from mem show "trie_member (trie_root (foldl trie_addProfanity (TrieFilter_init rc0) ws)) w \<longleftrightarrow>
      w \<in> ?B" .
  show "longest_word_at (trie_root (foldl trie_addProfanity (TrieFilter_init rc0) ws)) s i L \<longleftrightarrow>
      0 < L \<and> i + L \<le> length s \<and> take L (drop i s) \<in> ?B \<and>
      (\<forall>l\<in>{L<..length s - i}. take l (drop i s) \<notin> ?B)"
    unfolding longest_word_at_def mem ..
  show "no_word_at (trie_root f) (toLower text) i \<or>
      (\<exists>L. longest_word_at (trie_root f) (toLower text) i L)"
    by (rule word_at_cases)
  show "censor_inner (trie_root f) (toLower text) i i (None, 0) = (Some (i + L - 1), L)"
    if "longest_word_at (trie_root f) (toLower text) i L"
    using censor_inner_longest [OF that, of i "(None, 0)"] by simp
  show "censor_outer (trie_root f) rc (toLower text) i result =
        censor_outer (trie_root f) rc (toLower text) (i + L) (mask_range result i L rc)"
    if "longest_word_at (trie_root f) (toLower text) i L"
    using that by (rule censor_outer_word)
  show "length (mask_range result i L rc) = length result" by simp
  show "\<forall>k<length result. mask_range result i L rc ! k =
          (if i \<le> k \<and> k < i + L then rc else result ! k)"
    by (simp add: nth_mask)
  show "censor_inner (trie_root f) (toLower text) n n (None, 0) = (None, 0)"
    if "no_word_at (trie_root f) (toLower text) n"
    using that by (rule censor_inner_none)
  show "censor_outer (trie_root f) rc (toLower text) n result =
        censor_outer (trie_root f) rc (toLower text) (n + 1) result"
    if "n < length text \<and> no_word_at (trie_root f) (toLower text) n"
    using that by (simp add: censor_outer_no_word)
  show "censor_outer (trie_root f) rc (toLower text) m result = result" if "\<not> m < length text"
    using that by (simp add: censor_outer_end)
  show "trie_censor f text = censor_outer (trie_root f) (trie_replacementChar f) (toLower text) 0 text"
    by (simp add: trie_censor_def)
  show "\<forall>(j, we, wl)\<in>set (censor_visits (trie_root f) (toLower text) 0).
      case we of None \<Rightarrow> no_word_at (trie_root f) (toLower text) j
      | Some e \<Rightarrow> longest_word_at (trie_root f) (toLower text) j wl"
    by (auto dest!: censor_visits_bounds split: option.splits)
  show "\<exists>we wl. hd (censor_visits (trie_root f) (toLower text) 0) = (0, we, wl) \<and>
         censor_visits (trie_root f) (toLower text) 0 \<noteq> []" if "0 < length text"
    using that by (intro censor_visits_first) simp
  show "length (trie_censor f text) = length text"
    by (rule trie_censor_length)
  show "\<forall>k<length text. trie_censor f text ! k =
      (if \<exists>(j, we, wl)\<in>set (censor_visits (trie_root f) (toLower text) 0).
            we \<noteq> None \<and> j \<le> k \<and> k < j + wl
       then trie_replacementChar f else text ! k)"
    using trie_censor_nth by blast
  show "\<forall>k<L0. trie_censor f text ! k = trie_replacementChar f"
    if "longest_word_at (trie_root f) (toLower text) 0 L0"
    using trie_censor_first_word [OF that] by blast
  show "trie_censor (trie_addProfanity (TrieFilter_init CHR ''*'') ''assassin'') ''assassin'' = ''********''"
    by (rule ex_assassin)
qed

theorem trie_censor_longest_match_witness:
  "longest_word_at (trie_root (trie_addProfanity (TrieFilter_init CHR ''*'') ''assassin''))
     (toLower ''An Assassin'') 3 8 \<and>
   no_word_at (trie_root (trie_addProfanity (TrieFilter_init CHR ''*'') ''assassin''))
     (toLower ''An Assassin'') 0 \<and>
   censor_inner (trie_root (trie_addProfanity (TrieFilter_init CHR ''*'') ''assassin''))
     (toLower ''An Assassin'') 3 3 (None, 0) = (Some 10, 8) \<and>
   censor_inner (trie_root (trie_addProfanity (TrieFilter_init CHR ''*'') ''assassin''))
     (toLower ''An Assassin'') 0 0 (None, 0) = (None, 0) \<and>
   trie_member (trie_root (foldl trie_addProfanity (TrieFilter_init CHR ''*'') [''Assassin'']))
     ''assassin'' \<and>
   trie_censor (trie_addProfanity (TrieFilter_init CHR ''*'') ''assassin'') ''An Assassin'' ! 3
     = CHR ''*'' \<and>
   trie_censor (trie_addProfanity (TrieFilter_init CHR ''*'') ''assassin'') ''An Assassin'' ! 0
     = CHR ''A'' \<and>
   trie_censor (trie_addProfanity (TrieFilter_init CHR ''*'') ''assassin'') ''An Assassin''
     = ''An ********''"
proof -
  let ?f = "trie_addProfanity (TrieFilter_init CHR ''*'') ''assassin''"
  have rc: "trie_replacementChar ?f = CHR ''*''"
    by (simp add: trie_addProfanity_def TrieFilter_init_def)
  note inst = trie_censor_longest_match [of "CHR ''*''" "[''Assassin'']" "''assassin''"
      "''an assassin''" 3 8 ?f "''An Assassin''" "CHR ''*''" "''An Assassin''" 0 11 8]
  from inst ex_an_assassin_longest
  have a: "censor_inner (trie_root ?f) (toLower ''An Assassin'') 3 3 (None, 0) = (Some 10, 8)"
    by simp
  from inst ex_an_assassin_no_word
  have b: "censor_inner (trie_root ?f) (toLower ''An Assassin'') 0 0 (None, 0) = (None, 0)"
    by blast
  from inst have c: "trie_member (trie_root (foldl trie_addProfanity (TrieFilter_init CHR ''*'')
      [''Assassin''])) ''assassin''"
    by (simp add: toLower_def tolower_def)
  from inst have nth: "\<forall>k<length ''An Assassin''. trie_censor ?f ''An Assassin'' ! k =
      (if \<exists>(j, we, wl)\<in>set (censor_visits (trie_root ?f) (toLower ''An Assassin'') 0).
            we \<noteq> None \<and> j \<le> k \<and> k < j + wl
       then trie_replacementChar ?f else ''An Assassin'' ! k)"
    by blast
  from nth have d: "trie_censor ?f ''An Assassin'' ! 3 = CHR ''*''"
    by (simp add: ex_an_assassin_visits rc)
  from nth have e: "trie_censor ?f ''An Assassin'' ! 0 = CHR ''A''"
    by (simp add: ex_an_assassin_visits rc)
  from a b c d e ex_an_assassin ex_an_assassin_longest ex_an_assassin_no_word
  show ?thesis by simp
qed

lemma ex_overlap_visits:
  "censor_visits
     (trie_root (trie_addProfanity (trie_addProfanity (TrieFilter_init CHR ''*'') ''abc'') ''bcd''))
     (toLower ''abcd'') 0 = [(0, Some 2, 3), (3, None, 0)]"
  by (simp add: trie_addProfanity_def TrieFilter_init_def defaultWords_def
      censor_visits.simps censor_inner.simps toLower_def tolower_def)

lemma ex_overlap_inner:
  "censor_inner
     (trie_root (trie_addProfanity (trie_addProfanity (TrieFilter_init CHR ''*'') ''abc'') ''bcd''))
     (toLower ''abcd'') 1 1 (None, 0) = (Some 3, 3)"
  by (simp add: trie_addProfanity_def TrieFilter_init_def defaultWords_def
      censor_inner.simps toLower_def tolower_def)

text \<open>
  Claim C6. When the inner walk at \<open>i\<close> ends with a match (\<^verbatim>\<open>wordEnd\<close>,
  \<^verbatim>\<open>wordLength\<close>), the match ends at \<^verbatim>\<open>wordEnd = i + wordLength - 1\<close>, the loop writes
  the mask character at exactly the indices \<open>i, ..., i + wordLength - 1\<close> and goes on from
  index \<open>i + wordLength\<close>; without a match it goes on from \<open>i + 1\<close>. The output is the
  input with the matched span of every visit masked; each visit starts where the one
  before says, and no visit starts strictly inside the span matched at another visit.
\<close>

theorem trie_censor_skips_match:
  "(censor_inner (trie_root f) (toLower text) i i (None, 0) = (Some wordEnd, wordLength) \<longrightarrow>
      wordEnd + 1 = i + wordLength \<and> 0 < wordLength \<and> i + wordLength \<le> length text \<and>
      censor_outer (trie_root f) rc (toLower text) i result =
        censor_outer (trie_root f) rc (toLower text) (i + wordLength)
          (mask_range result i wordLength rc) \<and>
      length (mask_range result i wordLength rc) = length result \<and>
      (\<forall>k<length result. mask_range result i wordLength rc ! k =
          (if i \<le> k \<and> k < i + wordLength then rc else result ! k))) \<and>
   (i < length text \<and> fst (censor_inner (trie_root f) (toLower text) i i (None, 0)) = None \<longrightarrow>
      censor_outer (trie_root f) rc (toLower text) i result =
        censor_outer (trie_root f) rc (toLower text) (i + 1) result) \<and>
   trie_censor f text =
     foldl (\<lambda>r (j, we, wl). case we of None \<Rightarrow> r | Some e \<Rightarrow> mask_range r j wl (trie_replacementChar f))
       text (censor_visits (trie_root f) (toLower text) 0) \<and>
   (\<forall>n. Suc n < length (censor_visits (trie_root f) (toLower text) 0) \<longrightarrow>
      fst (censor_visits (trie_root f) (toLower text) 0 ! Suc n) =
        (case censor_visits (trie_root f) (toLower text) 0 ! n of
           (j, None, wl) \<Rightarrow> j + 1
         | (j, Some e, wl) \<Rightarrow> j + wl)) \<and>
   (\<forall>(j, we, wl)\<in>set (censor_visits (trie_root f) (toLower text) 0).
      \<forall>(j', we', wl')\<in>set (censor_visits (trie_root f) (toLower text) 0).
        we \<noteq> None \<longrightarrow> \<not> (j < j' \<and> j' < j + wl))"
proof (intro conjI impI allI)
  let ?root = "trie_root f" and ?s = "toLower text"
  let ?vs = "censor_visits ?root ?s 0"
  {
    assume a: "censor_inner ?root ?s i i (None, 0) = (Some wordEnd, wordLength)"
    from censor_inner_Some [OF a]
    have L: "longest_word_at ?root ?s i wordLength" and e: "wordEnd + 1 = i + wordLength" by simp_all
    from e show "wordEnd + 1 = i + wordLength" .
    from L show "0 < wordLength" by (simp add: longest_word_at_def)
    from L show "i + wordLength \<le> length text" by (simp add: longest_word_at_def)
    from L show "censor_outer ?root rc ?s i result =
        censor_outer ?root rc ?s (i + wordLength) (mask_range result i wordLength rc)"
      by (rule censor_outer_word)
    show "length (mask_range result i wordLength rc) = length result" by simp
    show "mask_range result i wordLength rc ! k =
          (if i \<le> k \<and> k < i + wordLength then rc else result ! k)" if "k < length result" for k
      using that by (simp add: nth_mask)
  }
  {
    assume "i < length text \<and> fst (censor_inner ?root ?s i i (None, 0)) = None"
    then have "i < length ?s" and "no_word_at ?root ?s i"
      by (simp_all add: censor_inner_None)
    then show "censor_outer ?root rc ?s i result = censor_outer ?root rc ?s (i + 1) result"
      by (rule censor_outer_no_word)
  }
  show "trie_censor f text =
     foldl (\<lambda>r (j, we, wl). case we of None \<Rightarrow> r | Some e \<Rightarrow> mask_range r j wl (trie_replacementChar f))
       text ?vs"
    by (simp add: trie_censor_def censor_outer_visits)
  {
    fix n assume n: "Suc n < length ?vs"
    obtain j we wl where v: "?vs ! n = (j, we, wl)" by (cases "?vs ! n")
    from n have "?vs ! n \<in> set ?vs" by simp
    with v have "(j, we, wl) \<in> set ?vs" by simp
    from censor_visits_bounds [OF this] censor_visits_next [OF n v] v
    show "fst (?vs ! Suc n) = (case ?vs ! n of (j, None, wl) \<Rightarrow> j + 1 | (j, Some e, wl) \<Rightarrow> j + wl)"
      by (cases we) auto
  }
  show "\<forall>(j, we, wl)\<in>set ?vs. \<forall>(j', we', wl')\<in>set ?vs. we \<noteq> None \<longrightarrow> \<not> (j < j' \<and> j' < j + wl)"
    using censor_visits_skip [of _ _ _ ?root ?s 0] by fastforce
qed

theorem trie_censor_skips_match_witness:
  "censor_inner
     (trie_root (trie_addProfanity (trie_addProfanity (TrieFilter_init CHR ''*'') ''abc'') ''bcd''))
     (toLower ''abcd'') 1 1 (None, 0) = (Some 3, 3) \<and>
   censor_visits
     (trie_root (trie_addProfanity (trie_addProfanity (TrieFilter_init CHR ''*'') ''abc'') ''bcd''))
     (toLower ''abcd'') 0 = [(0, Some 2, 3), (3, None, 0)] \<and>
   trie_censor (trie_addProfanity (trie_addProfanity (TrieFilter_init CHR ''*'') ''abc'') ''bcd'')
     ''abcd'' = ''***d''"
proof -
  let ?f = "trie_addProfanity (trie_addProfanity (TrieFilter_init CHR ''*'') ''abc'') ''bcd''"
  have rc: "trie_replacementChar ?f = CHR ''*''"
    by (simp add: trie_addProfanity_def TrieFilter_init_def)
  have m: "mask_range ''abcd'' 0 3 CHR ''*'' = ''***d''"
    by (simp add: eval_nat_numeral)
  from trie_censor_skips_match [of ?f "''abcd''" 1 3 3 "CHR ''*''" "''abcd''"]
  have "trie_censor ?f ''abcd'' =
     foldl (\<lambda>r (j, we, wl). case we of None \<Rightarrow> r | Some e \<Rightarrow> mask_range r j wl (trie_replacementChar ?f))
       ''abcd'' (censor_visits (trie_root ?f) (toLower ''abcd'') 0)"
    by blast
  then have "trie_censor ?f ''abcd'' = ''***d''"
    by (simp add: ex_overlap_visits rc m)
  with ex_overlap_visits ex_overlap_inner show ?thesis by simp
qed

section \<open>Both detectors look for a banned word as a substring\<close>

lemma find_from_sublist: "find_from s w 0 \<noteq> None \<longleftrightarrow> sublist w s"
proof
  assume "find_from s w 0 \<noteq> None"
  then obtain p where p: "find_from s w 0 = Some p" by auto
  from find_from_Some [OF p] obtain zs where "drop p s = w @ zs" by (auto simp: prefix_def)
  then have "s = take p s @ w @ zs" by (metis append_take_drop_id)
  then show "sublist w s" unfolding sublist_def by blast
next
  assume "sublist w s"
  then obtain ps ss where s: "s = ps @ w @ ss" unfolding sublist_def by blast
  show "find_from s w 0 \<noteq> None"
  proof
    assume n: "find_from s w 0 = None"
    from s have "length ps + length w \<le> length s" and "prefix w (drop (length ps) s)" by simp_all
    with find_from_None [OF n, of "length ps"] show False by simp
  qed
qed

lemma simple_contains_sublist:
  "simple_containsProfanity f text \<longleftrightarrow>
   (\<exists>w\<in>set (simple_profanityList f). sublist w (toLower text))"
  by (simp add: simple_containsProfanity_def list_ex_iff find_from_sublist del: not_None_eq)

lemma no_word_at_sublist:
  "(\<exists>k<length s. \<not> no_word_at root s k) \<longleftrightarrow> (\<exists>w. w \<noteq> [] \<and> trie_member root w \<and> sublist w s)"
proof
  assume "\<exists>k<length s. \<not> no_word_at root s k"
  then obtain k l where k: "k < length s" and l: "0 < l" "l \<le> length s - k"
    and m: "trie_member root (take l (drop k s))"
    by (auto simp: no_word_at_def)
  have "s = take k s @ take l (drop k s) @ drop l (drop k s)"
    by (simp only: append_take_drop_id)
  then have "sublist (take l (drop k s)) s" unfolding sublist_def by blast
  moreover from k l have "take l (drop k s) \<noteq> []" by auto
  ultimately show "\<exists>w. w \<noteq> [] \<and> trie_member root w \<and> sublist w s" using m by blast
next
  assume "\<exists>w. w \<noteq> [] \<and> trie_member root w \<and> sublist w s"
  then obtain w ps ss where w: "w \<noteq> []" "trie_member root w" and s: "s = ps @ w @ ss"
    unfolding sublist_def by blast
  from s have tk: "take (length w) (drop (length ps) s) = w" by simp
  from s w(1) have lt: "length ps < length s" by (cases w) auto
  from s w(1) have "length w \<in> {0<..length s - length ps}" by auto
  with tk w(2) have "\<not> no_word_at root s (length ps)"
    unfolding no_word_at_def by force
  with lt show "\<exists>k<length s. \<not> no_word_at root s k" by blast
qed

lemma trie_contains_sublist:
  "trie_containsProfanity f text \<longleftrightarrow>
   (\<exists>w. w \<noteq> [] \<and> trie_member (trie_root f) w \<and> sublist w (toLower text))"
  using no_word_at_sublist [of "toLower text" "trie_root f"]
  by (simp add: trie_containsProfanity_def contains_outer_iff)

lemma set_set_insert [simp]: "set (set_insert w ws) = insert w (set ws)"
  by (auto simp: set_insert_def set_insort_key)

lemma set_simple_init: "set (simple_profanityList (SimpleReplacementFilter_init rc)) = set defaultWords"
  by (simp add: init_words defaultWords_def) auto

lemma set_simple_addProfanity:
  "set (simple_profanityList (simple_addProfanity f w)) = insert (toLower w) (set (simple_profanityList f))"
  by (simp add: simple_addProfanity_def)

lemma set_simple_addProfanities:
  "set (simple_profanityList (foldl simple_addProfanity f ws)) =
   toLower ` set ws \<union> set (simple_profanityList f)"
  by (induction ws arbitrary: f) (auto simp: set_simple_addProfanity)

lemma set_simple_load_lines:
  "set (simple_profanityList
      (foldl (\<lambda>g word. if word \<noteq> [] then simple_addProfanity g word else g) f lines)) =
   toLower ` {l \<in> set lines. l \<noteq> []} \<union> set (simple_profanityList f)"
  by (induction lines arbitrary: f) (auto simp: set_simple_addProfanity)

lemma set_simple_loadFromFile:
  "set (simple_profanityList (simple_loadFromFile f file)) =
   toLower ` {l \<in> set (case file of None \<Rightarrow> [] | Some lines \<Rightarrow> lines). l \<noteq> []} \<union>
   set (simple_profanityList f)"
  by (cases "file") (simp_all add: simple_loadFromFile_def set_simple_load_lines)

lemma trie_member_load_lines:
  "trie_member (trie_root
      (foldl (\<lambda>g word. if word \<noteq> [] then g\<lparr> trie_root := addToTrie (trie_root g) (toLower word) \<rparr>
                           else g) f lines)) v \<longleftrightarrow>
   v \<in> toLower ` {l \<in> set lines. l \<noteq> []} \<or> trie_member (trie_root f) v"
  by (induction lines arbitrary: f) (auto simp: trie_member_addToTrie)

lemma trie_member_loadFromFile:
  "trie_member (trie_root (trie_loadFromFile f file)) v \<longleftrightarrow>
   v \<in> toLower ` {l \<in> set (case file of None \<Rightarrow> [] | Some lines \<Rightarrow> lines). l \<noteq> []} \<or>
   trie_member (trie_root f) v"
  by (cases "file") (simp_all add: trie_loadFromFile_def trie_member_load_lines)

lemma toLower_Nil_iff [simp]: "toLower w = [] \<longleftrightarrow> w = []"
  by (simp add: toLower_def)

text \<open>
  Claim C9. Load the same non-empty words into a literal-set filter and a trie filter, by
  \<^verbatim>\<open>addProfanity\<close> calls and then by \<^verbatim>\<open>loadFromFile\<close> (which drops empty lines). Then
  the two \<^verbatim>\<open>containsProfanity\<close> agree on every text, and both are true exactly when a
  banned word (a default word or the case-folded form of a loaded one) is a contiguous
  part of the case-folded text.
\<close>

theorem trie_contains_eq_simple_contains:
  assumes "\<forall>w\<in>set ws. w \<noteq> []"
  shows "trie_containsProfanity
           (trie_loadFromFile (foldl trie_addProfanity (TrieFilter_init rc) ws) file) text =
         simple_containsProfanity
           (simple_loadFromFile (foldl simple_addProfanity (SimpleReplacementFilter_init rc') ws) file)
           text \<and>
    (simple_containsProfanity
       (simple_loadFromFile (foldl simple_addProfanity (SimpleReplacementFilter_init rc') ws) file)
       text \<longleftrightarrow>
     (\<exists>w\<in>set defaultWords \<union> toLower ` set ws \<union>
           toLower ` {l \<in> set (case file of None \<Rightarrow> [] | Some lines \<Rightarrow> lines). l \<noteq> []}.
        sublist w (toLower text)))"
proof -
  let ?banned = "set defaultWords \<union> toLower ` set ws \<union>
      toLower ` {l \<in> set (case file of None \<Rightarrow> [] | Some lines \<Rightarrow> lines). l \<noteq> []}"
  let ?tf = "trie_loadFromFile (foldl trie_addProfanity (TrieFilter_init rc) ws) file"
  let ?sf = "simple_loadFromFile (foldl simple_addProfanity (SimpleReplacementFilter_init rc') ws) file"
  have ne: "\<forall>w\<in>?banned. w \<noteq> []"
    using assms by (auto simp: defaultWords_def toLower_def)
  have tm: "trie_member (trie_root ?tf) w \<longleftrightarrow> w \<in> ?banned" for w
    by (auto simp: trie_member_loadFromFile trie_member_addProfanities trie_member_init)
  have sm: "set (simple_profanityList ?sf) = ?banned"
    by (auto simp: set_simple_loadFromFile set_simple_addProfanities set_simple_init)
  have s: "simple_containsProfanity ?sf text \<longleftrightarrow> (\<exists>w\<in>?banned. sublist w (toLower text))"
    by (simp only: simple_contains_sublist sm)
  have "trie_containsProfanity ?tf text \<longleftrightarrow> (\<exists>w. w \<noteq> [] \<and> w \<in> ?banned \<and> sublist w (toLower text))"
    by (simp only: trie_contains_sublist tm)
  also have "\<dots> \<longleftrightarrow> (\<exists>w\<in>?banned. sublist w (toLower text))"
    using ne by blast
  finally have t: "trie_containsProfanity ?tf text \<longleftrightarrow> (\<exists>w\<in>?banned. sublist w (toLower text))" .
  from s t show ?thesis by blast
qed

theorem trie_contains_eq_simple_contains_witness:
  "trie_containsProfanity
     (trie_loadFromFile (foldl trie_addProfanity (TrieFilter_init CHR ''*'') [''Heck''])
        (Some [''darn'', [], ''Drat'']))
     ''What the HECK'' \<and>
   simple_containsProfanity
     (simple_loadFromFile (foldl simple_addProfanity (SimpleReplacementFilter_init CHR ''*'') [''Heck''])
        (Some [''darn'', [], ''Drat'']))
     ''What the HECK''"
proof -
  have ne: "\<forall>w\<in>set [''Heck'']. w \<noteq> []" by simp
  have "simple_containsProfanity
     (simple_loadFromFile (foldl simple_addProfanity (SimpleReplacementFilter_init CHR ''*'') [''Heck''])
        (Some [''darn'', [], ''Drat'']))
     ''What the HECK''"
    by (simp add: simple_containsProfanity_def simple_loadFromFile_def simple_addProfanity_def
        init_words set_insert_def toLower_def tolower_def find_from.simps)
  with trie_contains_eq_simple_contains [OF ne, of "CHR ''*''" "Some [''darn'', [], ''Drat'']"
      "''What the HECK''" "CHR ''*''"]
  show ?thesis by simp
qed

section \<open>The composite forwards words whatever the flags\<close>

lemma hybrid_contains_simple:
  "useSimpleFilter h \<Longrightarrow> simple_containsProfanity (simpleFilter h) text \<Longrightarrow>
   hybrid_containsProfanity h text"
  by (simp add: hybrid_containsProfanity_def)

lemma hybrid_contains_regex:
  "useRegexFilter h \<Longrightarrow> regex_containsProfanity (regexFilter h) text \<Longrightarrow>
   hybrid_containsProfanity h text"
  by (simp add: hybrid_containsProfanity_def)

lemma hybrid_contains_trie:
  "useTrieFilter h \<Longrightarrow> trie_containsProfanity (trieFilter h) text \<Longrightarrow>
   hybrid_containsProfanity h text"
  by (simp add: hybrid_containsProfanity_def)

lemma simple_contains_added:
  "sublist (toLower word) (toLower text) \<Longrightarrow>
   simple_containsProfanity (simple_addProfanity f word) text"
  by (auto simp: simple_contains_sublist set_simple_addProfanity)

lemma trie_contains_added:
  "word \<noteq> [] \<Longrightarrow> sublist (toLower word) (toLower text) \<Longrightarrow>
   trie_containsProfanity (trie_addProfanity f word) text"
  by (auto simp: trie_contains_sublist trie_member_addProfanity intro!: exI [of _ "toLower word"])

lemma regex_contains_added:
  "compile word = Some p \<Longrightarrow> p (toLower text) \<noteq> None \<Longrightarrow>
   regex_containsProfanity (regex_addProfanity compile f word) text"
  by (auto simp: regex_containsProfanity_def regex_addProfanity_def addPattern_def list_ex_iff)

lemma ex_paren:
  "\<not> hybrid_containsProfanity
       (configureFilters
          (hybrid_addProfanity compile_fragment
             (configureFilters (HybridFilter_init compile_fragment CHR ''*'') True False True) ''('')
          False True False) ''(''"
  by (simp add: hybrid_containsProfanity_def configureFilters_def hybrid_addProfanity_def
      HybridFilter_init_def regex_containsProfanity_def regex_addProfanity_def addPattern_def
      init_patterns compile_fragment_def regex_special_def toLower_def tolower_def find_from.simps
      regex_literal_def regex_class_plus_def)

lemma ex_empty_word:
  "\<not> hybrid_containsProfanity
       (configureFilters
          (hybrid_addProfanity compile_fragment
             (configureFilters (HybridFilter_init compile_fragment CHR ''*'') True True False) [])
          False False True) ''x''"
  by (simp add: hybrid_containsProfanity_def configureFilters_def hybrid_addProfanity_def
      HybridFilter_init_def trie_containsProfanity_def trie_addProfanity_def TrieFilter_init_def
      defaultWords_def toLower_def tolower_def contains_outer.simps contains_inner.simps)

text \<open>
  Claim C7, as the code has it. \<^verbatim>\<open>addProfanity\<close> and \<^verbatim>\<open>loadFromFile\<close> of the composite
  call the same operation of all three sub-engines and never read the flags, so adding
  under one setting of the flags and then configuring another gives the same composite as
  configuring first and adding then. Once its flag is on again, the literal-set engine
  finds the case-folded word wherever it occurs, the trie does so for a non-empty word,
  and the pattern-set engine has compiled the word as a regular expression and, when it
  compiled, reports a match wherever that expression matches.
\<close>

theorem hybrid_add_ignores_flags:
  "simpleFilter (hybrid_addProfanity compile (configureFilters h a b c) word) =
     simple_addProfanity (simpleFilter h) word \<and>
   regexFilter (hybrid_addProfanity compile (configureFilters h a b c) word) =
     regex_addProfanity compile (regexFilter h) word \<and>
   trieFilter (hybrid_addProfanity compile (configureFilters h a b c) word) =
     trie_addProfanity (trieFilter h) word \<and>
   simpleFilter (hybrid_loadFromFile compile (configureFilters h a b c) file) =
     simple_loadFromFile (simpleFilter h) file \<and>
   regexFilter (hybrid_loadFromFile compile (configureFilters h a b c) file) =
     regex_loadFromFile compile (regexFilter h) file \<and>
   trieFilter (hybrid_loadFromFile compile (configureFilters h a b c) file) =
     trie_loadFromFile (trieFilter h) file \<and>
   configureFilters (hybrid_addProfanity compile (configureFilters h a b c) word) a' b' c' =
     hybrid_addProfanity compile (configureFilters h a' b' c') word \<and>
   configureFilters (hybrid_loadFromFile compile (configureFilters h a b c) file) a' b' c' =
     hybrid_loadFromFile compile (configureFilters h a' b' c') file \<and>
   (sublist (toLower word) (toLower text) \<longrightarrow>
      hybrid_containsProfanity
        (configureFilters (hybrid_addProfanity compile (configureFilters h False b c) word)
           True b' c') text) \<and>
   (word \<noteq> [] \<and> sublist (toLower word) (toLower text) \<longrightarrow>
      hybrid_containsProfanity
        (configureFilters (hybrid_addProfanity compile (configureFilters h a b False) word)
           a' b' True) text) \<and>
   (compile word = Some p \<and> p (toLower text) \<noteq> None \<longrightarrow>
      hybrid_containsProfanity
        (configureFilters (hybrid_addProfanity compile (configureFilters h a False c) word)
           a' True c') text)"
proof (intro conjI impI)
  show "sublist (toLower word) (toLower text) \<Longrightarrow>
      hybrid_containsProfanity
        (configureFilters (hybrid_addProfanity compile (configureFilters h False b c) word)
           True b' c') text"
    by (rule hybrid_contains_simple)
       (simp_all add: configureFilters_def hybrid_addProfanity_def simple_contains_added)
  show "word \<noteq> [] \<and> sublist (toLower word) (toLower text) \<Longrightarrow>
      hybrid_containsProfanity
        (configureFilters (hybrid_addProfanity compile (configureFilters h a b False) word)
           a' b' True) text"
    by (rule hybrid_contains_trie)
       (simp_all add: configureFilters_def hybrid_addProfanity_def trie_contains_added)
  show "compile word = Some p \<and> p (toLower text) \<noteq> None \<Longrightarrow>
      hybrid_containsProfanity
        (configureFilters (hybrid_addProfanity compile (configureFilters h a False c) word)
           a' True c') text"
    by (rule hybrid_contains_regex)
       (simp_all add: configureFilters_def hybrid_addProfanity_def regex_contains_added
          del: not_None_eq)
qed (simp_all add: configureFilters_def hybrid_addProfanity_def hybrid_loadFromFile_def)

theorem hybrid_add_ignores_flags_witness:
  "hybrid_containsProfanity
     (configureFilters
        (hybrid_addProfanity compile_fragment
           (configureFilters (HybridFilter_init compile_fragment CHR ''*'') False False False) ''Heck'')
        True False False) ''what the heck'' \<and>
   hybrid_containsProfanity
     (configureFilters
        (hybrid_addProfanity compile_fragment
           (configureFilters (HybridFilter_init compile_fragment CHR ''*'') False False False) ''Heck'')
        False False True) ''what the heck'' \<and>
   hybrid_containsProfanity
     (configureFilters
        (hybrid_addProfanity compile_fragment
           (configureFilters (HybridFilter_init compile_fragment CHR ''*'') False False False) ''Heck'')
        False True False) ''what the heck''"
proof -
  have sub: "sublist (toLower ''Heck'') (toLower ''what the heck'')"
    unfolding find_from_sublist [symmetric]
    by (simp add: toLower_def tolower_def find_from.simps)
  have c: "compile_fragment ''Heck'' = Some (regex_literal ''Heck'')"
    by (simp add: compile_fragment_def regex_special_def)
  have m: "regex_literal ''Heck'' (toLower ''what the heck'') \<noteq> None"
    by (simp add: regex_literal_def toLower_def tolower_def find_from.simps)
  have ne: "''Heck'' \<noteq> []" by simp
  from hybrid_add_ignores_flags [of compile_fragment "HybridFilter_init compile_fragment CHR ''*''"
      False False False "''Heck''" "Some []" False False False "''what the heck''"
      "regex_literal ''Heck''"]
    sub c m ne
  show ?thesis by simp
qed

text \<open>
  The word \<^verbatim>\<open>(\<close> added while the pattern-set engine is off is not matched by that engine
  when it alone is on: the word is no regular expression and \<^verbatim>\<open>addPattern\<close> drops it.
  The empty word added while the trie is off is not matched by the trie either: its walks
  never look at the flag of the root.
\<close>

theorem hybrid_add_counterexample:
  "\<not> hybrid_containsProfanity
       (configureFilters
          (hybrid_addProfanity compile_fragment
             (configureFilters (HybridFilter_init compile_fragment CHR ''*'') True False True) ''('')
          False True False) ''('' \<and>
   \<not> hybrid_containsProfanity
       (configureFilters
          (hybrid_addProfanity compile_fragment
             (configureFilters (HybridFilter_init compile_fragment CHR ''*'') True True False) [])
          False False True) ''x''"
  using ex_paren ex_empty_word by simp

end
